theory Spec2Isabelle
  imports Complex_Main "HOL-Library.Word" "HOL-Library.Signed_Division"
begin

unbundle bit_operations_syntax

section \<open>Configuration macros of the two revisions\<close>

text \<open>
  The repository holds two revisions of one sketch. They share \<open>loop\<close>, \<open>doPing\<close>,
  \<open>currentPingNumInc\<close> and the warm-up wrapper around the range average, and differ in their
  \<open>#define\<close>d constants and in where the bit store lives: the first revision has
  \<open>setBool\<close>, \<open>getBool\<close> and \<open>getAvgBool\<close> in the sketch, the evolved revision calls the
  external BoolBits library. The macros of a revision are a record, and the operations that
  read a macro take the record.
\<close>

record config =
  PING_MAX_COUNT :: int
  ICMP_PING_TIMEOUT :: int
  NUMBER_OF_IPS :: int
  PROCESSING_LOOP_TIME :: int

definition first_revision :: config where
  "first_revision =
     \<lparr>PING_MAX_COUNT = 100, ICMP_PING_TIMEOUT = 800, NUMBER_OF_IPS = 3,
      PROCESSING_LOOP_TIME = 600\<rparr>"

definition evolved_revision :: config where
  "evolved_revision =
     \<lparr>PING_MAX_COUNT = 300, ICMP_PING_TIMEOUT = 950, NUMBER_OF_IPS = 3,
      PROCESSING_LOOP_TIME = 150\<rparr>"

text \<open>\<open>#define PROCESSING_LOOP_INTERVAL ((ICMP_PING_TIMEOUT * NUMBER_OF_IPS) + PROCESSING_LOOP_TIME)\<close>\<close>

definition PROCESSING_LOOP_INTERVAL :: "config \<Rightarrow> int" where
  "PROCESSING_LOOP_INTERVAL cfg =
     (ICMP_PING_TIMEOUT cfg * NUMBER_OF_IPS cfg) + PROCESSING_LOOP_TIME cfg"

text \<open>
  The cast \<open>(int)\<close> of a floating-point value truncates towards zero. The one cast of the
  sketch is applied to \<open>(PING_MAX_COUNT/8.0)+0.5\<close>, a multiple of one eighth that binary
  floating point represents exactly, so the value is modelled as a rational number.
\<close>

definition int_cast :: "rat \<Rightarrow> int" where
  "int_cast r = (if r < 0 then \<lceil>r\<rceil> else \<lfloor>r\<rfloor>)"

text \<open>\<open>#define PING_BYTE_MAX ( (int) ((PING_MAX_COUNT/8.0)+0.5) )\<close> (first revision)\<close>

definition PING_BYTE_MAX :: "config \<Rightarrow> int" where
  "PING_BYTE_MAX cfg = int_cast ((of_int (PING_MAX_COUNT cfg) / 8) + 1 / 2)"

section \<open>The bit store of the first revision\<close>

text \<open>
  The first revision of the sketch keeps its ping history in three global byte arrays and
  reads and writes single bits of them with \<open>setBool\<close>, \<open>getBool\<close> and \<open>getAvgBool\<close>.
  The target board is an Arduino Uno: \<open>byte\<close> is an unsigned 8-bit value and \<open>int\<close> is a
  16-bit two's complement value. Positions and counters are modelled as \<open>int\<close>; the three
  things that are undefined behaviour in the C++ source (an array access outside the array,
  a signed overflow of an \<open>int\<close> expression, a division by zero) are results of the model,
  so that no theorem below silently depends on them.
\<close>

type_synonym byte = "8 word"

datatype fault = OutOfBounds | IntOverflow | DivByZero

definition INT_MIN :: int where
  "INT_MIN = - 32768"

definition INT_MAX :: int where
  "INT_MAX = 32767"

text \<open>The value of an \<open>int\<close> expression, when it fits the 16 bits of the board's \<open>int\<close>.\<close>

definition int16 :: "int \<Rightarrow> fault + int" where
  "int16 v = (if INT_MIN \<le> v \<and> v \<le> INT_MAX then Inr v else Inl IntOverflow)"

text \<open>\<open>static byte BIT_MASK[8]\<close>\<close>

definition BIT_MASK :: "byte list" where
  "BIT_MASK = [0x01, 0x02, 0x04, 0x08, 0x10, 0x20, 0x40, 0x80]"

text \<open>An index is inside an array of the given contents.\<close>

definition in_array :: "'a list \<Rightarrow> int \<Rightarrow> bool" where
  "in_array xs i = (0 \<le> i \<and> i < int (length xs))"

text \<open>
  \<open>setBool(byte data[], int pos, boolean value)\<close>. The C operators \<open>/\<close> and \<open>%\<close> truncate
  towards zero (\<open>sdiv\<close>, \<open>smod\<close>). Both branches read \<open>data[byte_pos]\<close> and
  \<open>BIT_MASK[bit_pos]\<close> and write \<open>data[byte_pos]\<close>; the array is returned updated.
\<close>

definition setBool :: "byte list \<Rightarrow> int \<Rightarrow> bool \<Rightarrow> fault + byte list" where
  "setBool data pos val =
     (let byte_pos = pos sdiv 8;
          bit_pos = pos smod 8
      in if \<not> in_array data byte_pos \<or> \<not> in_array BIT_MASK bit_pos then Inl OutOfBounds
         else if val
         then Inr (data[nat byte_pos := (data ! nat byte_pos) OR (BIT_MASK ! nat bit_pos)])
         else Inr (data[nat byte_pos := (data ! nat byte_pos) AND NOT (BIT_MASK ! nat bit_pos)]))"

text \<open>
  \<open>getBool(byte data[], int pos)\<close>: the masked byte, converted to \<open>boolean\<close> (true when it
  is not zero).
\<close>

definition getBool :: "byte list \<Rightarrow> int \<Rightarrow> fault + bool" where
  "getBool data pos =
     (let byte_pos = pos sdiv 8;
          bit_pos = pos smod 8
      in if \<not> in_array data byte_pos \<or> \<not> in_array BIT_MASK bit_pos then Inl OutOfBounds
         else Inr ((data ! nat byte_pos) AND (BIT_MASK ! nat bit_pos) \<noteq> 0))"

text \<open>
  The loop of \<open>getAvgBool(byte data[], int startPos, int endPos)\<close>:
  \<open>for(int x=startPos; x < endPos; x++) if(getBool(data, x)) sum++;\<close>
\<close>

function avg_loop :: "byte list \<Rightarrow> int \<Rightarrow> int \<Rightarrow> int \<Rightarrow> fault + int" where
  "avg_loop data x endPos sumv =
     (if x < endPos
      then (case getBool data x of
              Inl e \<Rightarrow> Inl e
            | Inr b \<Rightarrow> avg_loop data (x + 1) endPos (if b then sumv + 1 else sumv))
      else Inr sumv)"
  by pat_completeness auto
termination
  by (relation "measure (\<lambda>(data, x, endPos, sumv). nat (endPos - x))") auto

declare avg_loop.simps [simp del]

text \<open>
  \<open>getAvgBool(byte data[], int startPos, int endPos)\<close>, the range average of the first
  revision: \<open>return (sum * 100)/(endPos-startPos);\<close> in 16-bit \<open>int\<close> arithmetic.
\<close>

definition getAvgBool_range :: "byte list \<Rightarrow> int \<Rightarrow> int \<Rightarrow> fault + int" where
  "getAvgBool_range data startPos endPos =
     (case avg_loop data startPos endPos 0 of
        Inl e \<Rightarrow> Inl e
      | Inr sumv \<Rightarrow>
          (case int16 (sumv * 100) of
             Inl e \<Rightarrow> Inl e
           | Inr p \<Rightarrow>
               (case int16 (endPos - startPos) of
                  Inl e \<Rightarrow> Inl e
                | Inr d \<Rightarrow> if d = 0 then Inl DivByZero else Inr (p sdiv d))))"

section \<open>Global state and main loop of the first revision\<close>

text \<open>
  The globals both revisions share: \<open>int currentPingNum=0; boolean firstRun=true;\<close>
\<close>

record cursor =
  currentPingNum :: int
  firstRun :: bool

text \<open>
  The globals of the first revision: the three ping arrays of \<open>PING_BYTE_MAX\<close> bytes and the
  three cached loss percentages (\<open>int\<close>).
\<close>

record globals = cursor +
  gatewayPings :: "byte list"
  firstAddrPings :: "byte list"
  secondAddrPings :: "byte list"
  gatewayAvgLoss :: int
  firstAddrLoss :: int
  secondAddrLoss :: int

text \<open>
  The three monitored targets, and which globals belong to each.
\<close>

datatype target = Gateway | FirstAddr | SecondAddr

fun pings :: "target \<Rightarrow> globals \<Rightarrow> byte list" where
  "pings Gateway g = gatewayPings g"
| "pings FirstAddr g = firstAddrPings g"
| "pings SecondAddr g = secondAddrPings g"

fun loss :: "target \<Rightarrow> globals \<Rightarrow> int" where
  "loss Gateway g = gatewayAvgLoss g"
| "loss FirstAddr g = firstAddrLoss g"
| "loss SecondAddr g = secondAddrLoss g"

text \<open>
  The state \<open>setup\<close> leaves behind: the arrays zeroed, the other globals at their
  initialisers.
\<close>

definition setup_globals :: "config \<Rightarrow> globals" where
  "setup_globals cfg =
     \<lparr>currentPingNum = 0, firstRun = True,
      gatewayPings = replicate (nat (PING_BYTE_MAX cfg)) 0,
      firstAddrPings = replicate (nat (PING_BYTE_MAX cfg)) 0,
      secondAddrPings = replicate (nat (PING_BYTE_MAX cfg)) 0,
      gatewayAvgLoss = 0, firstAddrLoss = 0, secondAddrLoss = 0\<rparr>"

text \<open>
  \<open>currentPingNumInc()\<close>, the same in both revisions: \<open>currentPingNum++\<close> in 16-bit \<open>int\<close>
  arithmetic, then the reset at \<open>PING_MAX_COUNT\<close>.
\<close>

definition currentPingNumInc :: "config \<Rightarrow> 'a cursor_scheme \<Rightarrow> fault + 'a cursor_scheme" where
  "currentPingNumInc cfg g =
     (case int16 (currentPingNum g + 1) of
        Inl e \<Rightarrow> Inl e
      | Inr n \<Rightarrow>
          if n = PING_MAX_COUNT cfg
          then Inr (g\<lparr>currentPingNum := 0, firstRun := False\<rparr>)
          else Inr (g\<lparr>currentPingNum := n\<rparr>))"

text \<open>
  \<open>getAvgBool(byte data[])\<close>, the warm-up wrapper of the first revision around the range
  average.
\<close>

definition getAvgBool :: "config \<Rightarrow> 'a cursor_scheme \<Rightarrow> byte list \<Rightarrow> fault + int" where
  "getAvgBool cfg g data =
     (if firstRun g then getAvgBool_range data 0 (currentPingNum g)
      else getAvgBool_range data 0 (PING_MAX_COUNT cfg))"

text \<open>
  The status the ICMPPing library leaves in \<open>echoReply.status\<close>. The sketch compares it
  with \<open>SUCCESS\<close> only; every other code of the library is \<open>OTHER\<close> with its number.
\<close>

datatype Status = SUCCESS | OTHER nat

text \<open>
  \<open>doPing\<close> of the first revision, as a function of the status found in \<open>echoReply\<close> when
  the library call (or the wait for \<open>asyncComplete\<close>) has returned: true on success.
\<close>

definition doPing :: "Status \<Rightarrow> bool" where
  "doPing status = (if status = SUCCESS then True else False)"

text \<open>Which of the three \<open>doPing\<close> calls of a cycle belongs to which target.\<close>

fun status_of :: "target \<Rightarrow> Status \<times> Status \<times> Status \<Rightarrow> Status" where
  "status_of Gateway (gw, a1, a2) = gw"
| "status_of FirstAddr (gw, a1, a2) = a1"
| "status_of SecondAddr (gw, a1, a2) = a2"

text \<open>The sample a cycle records for a target: true is a loss.\<close>

definition sample :: "target \<Rightarrow> Status \<times> Status \<times> Status \<Rightarrow> bool" where
  "sample t c = (\<not> doPing (status_of t c))"

text \<open>
  One call of \<open>loop()\<close> of the first revision, given the statuses of its three pings: the
  three \<open>setBool\<close> calls at \<open>currentPingNum\<close>, \<open>currentPingNumInc\<close>, then the three averages.
  Serial and LCD output, \<open>Ethernet.maintain\<close> and the wait that ends the function change
  none of the globals modelled here.
\<close>

definition loop :: "config \<Rightarrow> globals \<Rightarrow> Status \<times> Status \<times> Status \<Rightarrow> fault + globals" where
  "loop cfg g statuses =
     (case statuses of (gw, a1, a2) \<Rightarrow>
      case setBool (gatewayPings g) (currentPingNum g) (\<not> doPing gw) of
        Inl e \<Rightarrow> Inl e
      | Inr d1 \<Rightarrow>
      case setBool (firstAddrPings g) (currentPingNum g) (\<not> doPing a1) of
        Inl e \<Rightarrow> Inl e
      | Inr d2 \<Rightarrow>
      case setBool (secondAddrPings g) (currentPingNum g) (\<not> doPing a2) of
        Inl e \<Rightarrow> Inl e
      | Inr d3 \<Rightarrow>
      case currentPingNumInc cfg
             (g\<lparr>gatewayPings := d1, firstAddrPings := d2, secondAddrPings := d3\<rparr>) of
        Inl e \<Rightarrow> Inl e
      | Inr g1 \<Rightarrow>
      case getAvgBool cfg g1 (gatewayPings g1) of
        Inl e \<Rightarrow> Inl e
      | Inr l1 \<Rightarrow>
      case getAvgBool cfg g1 (firstAddrPings g1) of
        Inl e \<Rightarrow> Inl e
      | Inr l2 \<Rightarrow>
      case getAvgBool cfg g1 (secondAddrPings g1) of
        Inl e \<Rightarrow> Inl e
      | Inr l3 \<Rightarrow>
      Inr (g1\<lparr>gatewayAvgLoss := l1, firstAddrLoss := l2, secondAddrLoss := l3\<rparr>))"

text \<open>
  The statements of \<open>loop()\<close> one by one. \<open>store_sample t v\<close> is the statement
  \<open>setBool(<t>Pings, currentPingNum, v)\<close> for the array of target \<open>t\<close>; \<open>store_loss cfg t\<close> is
  \<open><t>Loss = getAvgBool(<t>Pings)\<close>; \<open>and_then\<close> runs the next statement unless the previous
  one has faulted.
\<close>

definition and_then :: "fault + 'a \<Rightarrow> ('a \<Rightarrow> fault + 'b) \<Rightarrow> fault + 'b" where
  "and_then r f = (case r of Inl e \<Rightarrow> Inl e | Inr x \<Rightarrow> f x)"

fun store_sample :: "target \<Rightarrow> bool \<Rightarrow> globals \<Rightarrow> fault + globals" where
  "store_sample Gateway v g =
     (case setBool (gatewayPings g) (currentPingNum g) v of
        Inl e \<Rightarrow> Inl e | Inr d \<Rightarrow> Inr (g\<lparr>gatewayPings := d\<rparr>))"
| "store_sample FirstAddr v g =
     (case setBool (firstAddrPings g) (currentPingNum g) v of
        Inl e \<Rightarrow> Inl e | Inr d \<Rightarrow> Inr (g\<lparr>firstAddrPings := d\<rparr>))"
| "store_sample SecondAddr v g =
     (case setBool (secondAddrPings g) (currentPingNum g) v of
        Inl e \<Rightarrow> Inl e | Inr d \<Rightarrow> Inr (g\<lparr>secondAddrPings := d\<rparr>))"

fun store_loss :: "config \<Rightarrow> target \<Rightarrow> globals \<Rightarrow> fault + globals" where
  "store_loss cfg Gateway g =
     (case getAvgBool cfg g (gatewayPings g) of
        Inl e \<Rightarrow> Inl e | Inr l \<Rightarrow> Inr (g\<lparr>gatewayAvgLoss := l\<rparr>))"
| "store_loss cfg FirstAddr g =
     (case getAvgBool cfg g (firstAddrPings g) of
        Inl e \<Rightarrow> Inl e | Inr l \<Rightarrow> Inr (g\<lparr>firstAddrLoss := l\<rparr>))"
| "store_loss cfg SecondAddr g =
     (case getAvgBool cfg g (secondAddrPings g) of
        Inl e \<Rightarrow> Inl e | Inr l \<Rightarrow> Inr (g\<lparr>secondAddrLoss := l\<rparr>))"

text \<open>The Arduino runtime calls \<open>loop()\<close> again and again: the first calls, one per element.\<close>

fun run :: "config \<Rightarrow> globals \<Rightarrow> (Status \<times> Status \<times> Status) list \<Rightarrow> fault + globals" where
  "run cfg g [] = Inr g"
| "run cfg g (c # cs) = (case loop cfg g c of Inl e \<Rightarrow> Inl e | Inr g' \<Rightarrow> run cfg g' cs)"

text \<open>The positions handed to \<open>setBool\<close> during those calls.\<close>

fun written :: "config \<Rightarrow> globals \<Rightarrow> (Status \<times> Status \<times> Status) list \<Rightarrow> int set" where
  "written cfg g [] = {}"
| "written cfg g (c # cs) =
     insert (currentPingNum g)
       (case loop cfg g c of Inl e \<Rightarrow> {} | Inr g' \<Rightarrow> written cfg g' cs)"

text \<open>
  \<open>currentPingNumInc()\<close> called \<open>n\<close> times in a row, as \<open>n\<close> calls of \<open>loop()\<close> of either
  revision do.
\<close>

fun inc_times :: "config \<Rightarrow> nat \<Rightarrow> 'a cursor_scheme \<Rightarrow> fault + 'a cursor_scheme" where
  "inc_times cfg 0 g = Inr g"
| "inc_times cfg (Suc n) g =
     (case currentPingNumInc cfg g of Inl e \<Rightarrow> Inl e | Inr g' \<Rightarrow> inc_times cfg n g')"

text \<open>
  A sequence of samples recorded into one array: \<open>setBool\<close> called for each, at consecutive
  positions from \<open>pos\<close>, as successive calls of \<open>loop()\<close> do for one target.
\<close>

fun setBools :: "byte list \<Rightarrow> int \<Rightarrow> bool list \<Rightarrow> fault + byte list" where
  "setBools data pos [] = Inr data"
| "setBools data pos (v # vs) =
     (case setBool data pos v of Inl e \<Rightarrow> Inl e | Inr data' \<Rightarrow> setBools data' (pos + 1) vs)"

section \<open>The evolved revision\<close>

text \<open>
  What the ICMPPing library does during one call of \<open>doPing\<close>. Without
  \<open>ICMPPING_ASYNCH_ENABLE\<close> the sketch makes the blocking call \<open>ping(pingAddr, 1, echoReply)\<close>,
  which leaves a status. With it, \<open>ping.asyncStart\<close> either fails to send the request, or
  succeeds, and then \<open>ping.asyncComplete\<close> answers false some number of times before it
  answers true and leaves a status (the library bounds the wait by its timeout).
\<close>

datatype probe = Blocking Status | AsyncNotSent Status | AsyncSent nat Status

text \<open>
  \<open>doPing(IPAddress pingAddr, int x, int y)\<close> of the evolved revision: the early
  \<open>return false\<close> when the request could not be sent, otherwise the wait (which only spins
  the clock icon of the LCD) and the test \<open>echoReply.status == SUCCESS\<close>.
\<close>

fun doPing_evolved :: "probe \<Rightarrow> bool" where
  "doPing_evolved (AsyncNotSent status) = False"
| "doPing_evolved (AsyncSent polls status) = (if status = SUCCESS then True else False)"
| "doPing_evolved (Blocking status) = (if status = SUCCESS then True else False)"

text \<open>
  The bit store of the evolved revision is the external BoolBits library, whose code is not
  part of the sketch. The sketch is modelled up to its calls of the library: which method of
  which of the three \<open>BoolBits\<close> objects it calls, with which arguments.
\<close>

datatype call = SetBool target int bool | GetFloatAvgBool target int int

text \<open>
  \<open>getFloatAvgBool(BoolBits& data)\<close>, the warm-up wrapper of the evolved revision: the
  library call it makes.
\<close>

definition getFloatAvgBool :: "config \<Rightarrow> 'a cursor_scheme \<Rightarrow> target \<Rightarrow> call" where
  "getFloatAvgBool cfg g data =
     (if firstRun g then GetFloatAvgBool data 0 (currentPingNum g)
      else GetFloatAvgBool data 0 (PING_MAX_COUNT cfg))"

text \<open>
  One call of \<open>loop()\<close> of the evolved revision, given what the library does for its three
  pings: the three \<open>setBool\<close> calls, \<open>currentPingNumInc\<close>, the three \<open>getFloatAvgBool\<close>
  calls. The result is the list of library calls made, in order, and the cursor.
\<close>

definition loop_evolved ::
  "config \<Rightarrow> cursor \<Rightarrow> probe \<times> probe \<times> probe \<Rightarrow> fault + call list \<times> cursor" where
  "loop_evolved cfg g probes =
     (case probes of (gw, a1, a2) \<Rightarrow>
      let c1 = SetBool Gateway (currentPingNum g) (\<not> doPing_evolved gw);
          c2 = SetBool FirstAddr (currentPingNum g) (\<not> doPing_evolved a1);
          c3 = SetBool SecondAddr (currentPingNum g) (\<not> doPing_evolved a2)
      in case currentPingNumInc cfg g of
           Inl e \<Rightarrow> Inl e
         | Inr g1 \<Rightarrow>
             Inr ([c1, c2, c3,
                   getFloatAvgBool cfg g1 Gateway,
                   getFloatAvgBool cfg g1 FirstAddr,
                   getFloatAvgBool cfg g1 SecondAddr], g1))"

fun probe_of :: "target \<Rightarrow> probe \<times> probe \<times> probe \<Rightarrow> probe" where
  "probe_of Gateway (gw, a1, a2) = gw"
| "probe_of FirstAddr (gw, a1, a2) = a1"
| "probe_of SecondAddr (gw, a1, a2) = a2"

text \<open>Successive calls of \<open>loop()\<close> of the evolved revision, and all the library calls they make.\<close>

fun run_evolved ::
  "config \<Rightarrow> cursor \<Rightarrow> (probe \<times> probe \<times> probe) list \<Rightarrow> fault + call list \<times> cursor" where
  "run_evolved cfg g [] = Inr ([], g)"
| "run_evolved cfg g (p # ps) =
     (case loop_evolved cfg g p of
        Inl e \<Rightarrow> Inl e
      | Inr (calls, g1) \<Rightarrow>
          (case run_evolved cfg g1 ps of
             Inl e \<Rightarrow> Inl e
           | Inr (rest, g') \<Rightarrow> Inr (calls @ rest, g')))"

text \<open>The positions at which a list of library calls has written the buffer of a target.\<close>

fun set_positions :: "target \<Rightarrow> call list \<Rightarrow> int set" where
  "set_positions t [] = {}"
| "set_positions t (SetBool t' pos v # calls) =
     (if t' = t then insert pos (set_positions t calls) else set_positions t calls)"
| "set_positions t (GetFloatAvgBool t' s e # calls) = set_positions t calls"

section \<open>The wait that ends a cycle\<close>

text \<open>
  \<open>millis()\<close> returns the milliseconds since the board started as an \<open>unsigned long\<close> of 32
  bits, so it wraps around. Time itself is a natural number of milliseconds.
\<close>

definition millis :: "nat \<Rightarrow> 32 word" where
  "millis t = of_nat t"

text \<open>\<open>stime=millis();\<close> at time \<open>t0\<close>, with \<open>long stime\<close>: the reading as a signed value.\<close>

definition loop_start :: "nat \<Rightarrow> int" where
  "loop_start t0 = sint (millis t0)"

text \<open>
  \<open>while(millis()-stime < PROCESSING_LOOP_INTERVAL)\<close>, the wait that ends \<open>loop()\<close> in both
  revisions. The subtraction and the comparison are done in \<open>unsigned long\<close>, to which
  \<open>stime\<close> and the \<open>int\<close> constant are converted. The list holds the times at which the
  condition is evaluated; the result is the time at which the loop is left, or \<open>None\<close> when
  it is still waiting after the last of them.
\<close>

fun idle_wait :: "config \<Rightarrow> int \<Rightarrow> nat list \<Rightarrow> nat option" where
  "idle_wait cfg stime [] = None"
| "idle_wait cfg stime (t # ts) =
     (if millis t - word_of_int stime < word_of_int (PROCESSING_LOOP_INTERVAL cfg)
      then idle_wait cfg stime ts
      else Some t)"

section \<open>Specification vocabulary\<close>

text \<open>
  The outcomes of a probe in the specification's contract of the probe executor. A request
  that could not be sent is \<open>SendFailed\<close>; a probe that ran is \<open>Success\<close> when its status is
  \<open>SUCCESS\<close> and \<open>Failure\<close> otherwise.
\<close>

datatype outcome = Success | Failure | SendFailed

fun outcome_of :: "probe \<Rightarrow> outcome" where
  "outcome_of (Blocking SUCCESS) = Success"
| "outcome_of (Blocking (OTHER k)) = Failure"
| "outcome_of (AsyncNotSent status) = SendFailed"
| "outcome_of (AsyncSent polls SUCCESS) = Success"
| "outcome_of (AsyncSent polls (OTHER k)) = Failure"

text \<open>The number of true values (losses) in a list of samples.\<close>

definition count_true :: "bool list \<Rightarrow> int" where
  "count_true vs = int (length (filter id vs))"

text \<open>The first \<open>n\<close> bits of a byte array, least significant bit of each byte first.\<close>

definition bits :: "byte list \<Rightarrow> nat \<Rightarrow> bool list" where
  "bits data n = map (\<lambda>i. bit (data ! (i div 8)) (i mod 8)) [0..<n]"

text \<open>
  The specification's \<open>logical_window_size()\<close>: the write cursor while the buffer has not
  wrapped, the capacity afterwards.
\<close>

definition logical_window_size :: "config \<Rightarrow> 'a cursor_scheme \<Rightarrow> int" where
  "logical_window_size cfg g = (if firstRun g then currentPingNum g else PING_MAX_COUNT cfg)"

text \<open>Each ping array has a bit for every position below the capacity.\<close>

definition sized :: "config \<Rightarrow> globals \<Rightarrow> bool" where
  "sized cfg g = (\<forall>t. PING_MAX_COUNT cfg \<le> 8 * int (length (pings t g)))"

text \<open>
  What the proofs need of a revision's macros: a positive capacity, small enough that the
  percentage \<open>sum * 100\<close> of a full window fits the 16-bit \<open>int\<close>, and arrays of
  \<open>PING_BYTE_MAX\<close> bytes that hold a bit for every position below the capacity.
\<close>

definition usable :: "config \<Rightarrow> bool" where
  "usable cfg =
     (0 < PING_MAX_COUNT cfg \<and> PING_MAX_COUNT cfg * 100 \<le> INT_MAX \<and>
      PING_MAX_COUNT cfg \<le> 8 * PING_BYTE_MAX cfg)"

text \<open>
  The specification's BitRingBuffer, as its words describe it: \<open>set\<close> appends the value at
  the write cursor, overwriting the oldest entry once wrapped, advances the cursor modulo the
  capacity, and sets \<open>has_wrapped\<close> when the cursor passes the capacity for the first time.
  \<open>window\<close> holds the recorded samples of the logical window, by position: it grows until
  the buffer has wrapped and has the capacity's length from then on.
\<close>

record ring =
  window :: "bool list"
  write_cursor :: nat
  has_wrapped :: bool

definition ring_new :: ring where
  "ring_new = \<lparr>window = [], write_cursor = 0, has_wrapped = False\<rparr>"

definition ring_set :: "nat \<Rightarrow> ring \<Rightarrow> bool \<Rightarrow> ring" where
  "ring_set capacity r v =
     (let w = (if has_wrapped r then (window r)[write_cursor r := v] else window r @ [v]);
          c = write_cursor r + 1
      in if c = capacity
         then \<lparr>window = w, write_cursor = 0, has_wrapped = True\<rparr>
         else \<lparr>window = w, write_cursor = c, has_wrapped = has_wrapped r\<rparr>)"

text \<open>The buffer of the specification after a sequence of samples has been recorded.\<close>

definition ring_record :: "nat \<Rightarrow> bool list \<Rightarrow> ring" where
  "ring_record capacity vs = foldl (ring_set capacity) ring_new vs"

text \<open>The cursor of a buffer is an index, and its window is as long as it should be.\<close>

definition ring_inv :: "nat \<Rightarrow> ring \<Rightarrow> bool" where
  "ring_inv capacity r =
     (write_cursor r < capacity \<and>
      length (window r) = (if has_wrapped r then capacity else write_cursor r))"

text \<open>
  The globals \<open>g\<close> hold, for target \<open>t\<close>, the buffer \<open>r\<close> of the specification: same
  cursor and flag, the bits of the window are the samples of \<open>r\<close>, and every bit of the array
  beyond the window is as it was in the initial globals \<open>g0\<close>.
\<close>

definition holds_window :: "globals \<Rightarrow> globals \<Rightarrow> target \<Rightarrow> ring \<Rightarrow> bool" where
  "holds_window g0 g t r =
     (currentPingNum g = int (write_cursor r) \<and> firstRun g = (\<not> has_wrapped r) \<and>
      length (pings t g) = length (pings t g0) \<and>
      (\<forall>p<length (window r). getBool (pings t g) (int p) = Inr (window r ! p)) \<and>
      (\<forall>p. int (length (window r)) \<le> p \<and> p < 8 * int (length (pings t g0))
           \<longrightarrow> getBool (pings t g) p = getBool (pings t g0) p))"

section \<open>Properties of the bit store\<close>

lemma BIT_MASK_nth: "n < 8 \<Longrightarrow> BIT_MASK ! n = 2 ^ n"
proof -
  assume "n < 8"
  then consider "n = 0" | "n = 1" | "n = 2" | "n = 3" | "n = 4" | "n = 5" | "n = 6" | "n = 7"
    by linarith
  then show ?thesis
    by cases (simp_all add: BIT_MASK_def)
qed

lemma length_BIT_MASK: "length BIT_MASK = 8"
  by (simp add: BIT_MASK_def)

lemma pos_split:
  assumes "0 \<le> (pos::int)"
  shows "pos sdiv 8 = pos div 8" and "pos smod 8 = pos mod 8"
  using assms by (simp_all add: signed_divide_int_def signed_modulo_int_def sgn_if)

lemma in_array_bit: "0 \<le> pos \<Longrightarrow> in_array BIT_MASK (pos smod 8)"
  by (simp add: in_array_def length_BIT_MASK pos_split)

lemma in_array_byte:
  "0 \<le> pos \<Longrightarrow> pos < 8 * int (length data) \<Longrightarrow> in_array data (pos sdiv 8)"
  by (simp add: in_array_def pos_split) linarith

lemma getBool_bit:
  assumes "0 \<le> pos" "pos < 8 * int (length data)"
  shows "getBool data pos = Inr (bit (data ! nat (pos div 8)) (nat (pos mod 8)))"
proof -
  have m: "nat (pos mod 8) < 8" using assms by simp
  have "(data ! nat (pos div 8)) AND 2 ^ nat (pos mod 8) \<noteq> 0
          \<longleftrightarrow> bit (data ! nat (pos div 8)) (nat (pos mod 8))"
    by (simp add: and_exp_eq_0_iff_not_bit)
  then show ?thesis
    using assms in_array_bit [of pos] in_array_byte [of pos data] m
    by (simp add: getBool_def Let_def pos_split BIT_MASK_nth)
qed

lemma setBool_eq:
  assumes "0 \<le> pos" "pos < 8 * int (length data)"
  shows "setBool data pos val =
           Inr (data[nat (pos div 8) :=
                  (if val then (data ! nat (pos div 8)) OR 2 ^ nat (pos mod 8)
                   else (data ! nat (pos div 8)) AND NOT (2 ^ nat (pos mod 8)))])"
proof -
  have m: "nat (pos mod 8) < 8" using assms by simp
  show ?thesis
    using assms in_array_bit [of pos] in_array_byte [of pos data] m
    by (simp add: setBool_def Let_def pos_split BIT_MASK_nth)
qed

lemma setBool_length:
  "setBool data pos val = Inr data' \<Longrightarrow> length data' = length data"
  by (auto simp: setBool_def Let_def split: if_splits)

lemma getBool_setBool_same:
  assumes "0 \<le> pos" "pos < 8 * int (length data)" "setBool data pos val = Inr data'"
  shows "getBool data' pos = Inr val"
proof -
  let ?i = "nat (pos div 8)" and ?b = "nat (pos mod 8)"
  have len: "length data' = length data" using assms(3) by (rule setBool_length)
  have i: "?i < length data" using assms(1,2) by (simp add: nat_less_iff)
  have b: "?b < 8" using assms(1) by simp
  have "data' = data[?i := (if val then (data ! ?i) OR 2 ^ ?b else (data ! ?i) AND NOT (2 ^ ?b))]"
    using assms setBool_eq [of pos data val] by simp
  then have d': "data' ! ?i = (if val then (data ! ?i) OR 2 ^ ?b else (data ! ?i) AND NOT (2 ^ ?b))"
    using i by simp
  have "bit (data' ! ?i) ?b = val"
    using b by (simp add: d' bit_or_iff bit_and_iff bit_not_iff bit_exp_iff)
  then show ?thesis
    using assms(1,2) len getBool_bit [of pos data'] by simp
qed

lemma getBool_setBool_other:
  assumes "0 \<le> pos" "pos < 8 * int (length data)" "setBool data pos val = Inr data'"
    and "0 \<le> q" "q < 8 * int (length data)" "q \<noteq> pos"
  shows "getBool data' q = getBool data q"
proof -
  let ?i = "nat (pos div 8)" and ?b = "nat (pos mod 8)"
  let ?j = "nat (q div 8)" and ?c = "nat (q mod 8)"
  have len: "length data' = length data" using assms(3) by (rule setBool_length)
  have i: "?i < length data" using assms(1,2) by (simp add: nat_less_iff)
  have d': "data' = data[?i := (if val then (data ! ?i) OR 2 ^ ?b else (data ! ?i) AND NOT (2 ^ ?b))]"
    using assms(1-3) setBool_eq [of pos data val] by simp
  have "bit (data' ! ?j) ?c = bit (data ! ?j) ?c"
  proof (cases "?j = ?i")
    case True
    then have "q div 8 = pos div 8" using assms(1,4) by simp
    then have "q mod 8 \<noteq> pos mod 8"
      using assms(6) by (metis mult_div_mod_eq)
    then have "?c \<noteq> ?b" using assms(1,4) by simp
    moreover have "?c < 8" using assms(4) by simp
    ultimately show ?thesis
      using True i by (simp add: d' bit_or_iff bit_and_iff bit_not_iff bit_exp_iff)
  next
    case False
    then show ?thesis by (simp add: d')
  qed
  then show ?thesis
    using assms(4,5) len getBool_bit [of q data'] getBool_bit [of q data] by simp
qed

lemma setBool_ok:
  "0 \<le> pos \<Longrightarrow> pos < 8 * int (length data) \<Longrightarrow> \<exists>data'. setBool data pos val = Inr data'"
  by (simp add: setBool_eq)

text \<open>
  C9. Round trip and locality of the bit store: for every position inside the array and
  every boolean, \<open>setBool\<close> succeeds, a \<open>getBool\<close> of the same position afterwards returns
  the value written, and a \<open>getBool\<close> of any other position inside the array returns what
  it returned before the write.
\<close>

theorem setBool_getBool_roundtrip:
  assumes "0 \<le> pos" and "pos < 8 * int (length data)"
  shows "\<exists>data'. setBool data pos val = Inr data' \<and>
           getBool data' pos = Inr val \<and>
           (\<forall>q. 0 \<le> q \<and> q < 8 * int (length data) \<and> q \<noteq> pos
                \<longrightarrow> getBool data' q = getBool data q)"
proof -
  obtain data' where s: "setBool data pos val = Inr data'"
    using setBool_ok [OF assms] by blast
  have "getBool data' pos = Inr val"
    using assms s by (rule getBool_setBool_same)
  moreover have "\<forall>q. 0 \<le> q \<and> q < 8 * int (length data) \<and> q \<noteq> pos
                \<longrightarrow> getBool data' q = getBool data q"
    using assms s by (blast intro: getBool_setBool_other)
  ultimately show ?thesis using s by blast
qed

theorem setBool_getBool_roundtrip_witness:
  "(0::int) \<le> 11 \<and> (11::int) < 8 * int (length [0x00, 0xF0 :: byte]) \<and>
   (\<exists>data'. setBool [0x00, 0xF0] 11 True = Inr data' \<and>
      getBool data' 11 = Inr True \<and>
      (\<forall>q. 0 \<le> q \<and> q < 8 * int (length [0x00, 0xF0 :: byte]) \<and> q \<noteq> 11
           \<longrightarrow> getBool data' q = getBool [0x00, 0xF0] q))"
  using setBool_getBool_roundtrip [of 11 "[0x00, 0xF0]" True] by simp


section \<open>The cursor\<close>

lemma currentPingNumInc_eq:
  assumes "0 \<le> currentPingNum g" "currentPingNum g < PING_MAX_COUNT cfg" "PING_MAX_COUNT cfg \<le> INT_MAX"
  shows "currentPingNumInc cfg g =
           Inr (if currentPingNum g + 1 = PING_MAX_COUNT cfg
                then g\<lparr>currentPingNum := 0, firstRun := False\<rparr>
                else g\<lparr>currentPingNum := currentPingNum g + 1\<rparr>)"
  using assms by (simp add: currentPingNumInc_def int16_def INT_MIN_def)

lemma inc_times_cursor:
  assumes "0 \<le> currentPingNum g" "currentPingNum g < PING_MAX_COUNT cfg" "PING_MAX_COUNT cfg \<le> INT_MAX"
  shows "\<exists>g'. inc_times cfg n g = Inr g' \<and>
           currentPingNum g' = (currentPingNum g + int n) mod PING_MAX_COUNT cfg \<and>
           firstRun g' = (firstRun g \<and> currentPingNum g + int n < PING_MAX_COUNT cfg)"
  using assms
proof (induction n arbitrary: g)
  case 0
  then show ?case by simp
next
  case (Suc n)
  let ?c = "currentPingNum g" and ?cap = "PING_MAX_COUNT cfg"
  show ?case
  proof (cases "?c + 1 = ?cap")
    case True
    let ?g1 = "g\<lparr>currentPingNum := 0, firstRun := False\<rparr>"
    have step: "currentPingNumInc cfg g = Inr ?g1"
      using Suc.prems True by (simp add: currentPingNumInc_eq)
    have "0 \<le> currentPingNum ?g1" "currentPingNum ?g1 < ?cap" using Suc.prems by simp_all
    from Suc.IH [OF this Suc.prems(3)] obtain g' where
      g': "inc_times cfg n ?g1 = Inr g'" "currentPingNum g' = int n mod ?cap" "\<not> firstRun g'"
      by auto
    have "(?c + int (Suc n)) mod ?cap = int n mod ?cap"
      using True by (metis add.assoc add.commute mod_add_self1 of_nat_Suc)
    then show ?thesis using g' step True by simp
  next
    case False
    let ?g1 = "g\<lparr>currentPingNum := ?c + 1\<rparr>"
    have step: "currentPingNumInc cfg g = Inr ?g1"
      using Suc.prems False by (simp add: currentPingNumInc_eq)
    have "0 \<le> currentPingNum ?g1" "currentPingNum ?g1 < ?cap" using Suc.prems False by simp_all
    from Suc.IH [OF this Suc.prems(3)] obtain g' where
      g': "inc_times cfg n ?g1 = Inr g'" "currentPingNum g' = (?c + 1 + int n) mod ?cap"
         "firstRun g' = (firstRun g \<and> ?c + 1 + int n < ?cap)"
      by auto
    then show ?thesis using step by (simp add: ac_simps)
  qed
qed

text \<open>
  C8. The write cursor stays an index of the buffer: for a capacity between 1 and 32767,
  from the initial globals (\<open>currentPingNum = 0\<close>, \<open>firstRun = true\<close>) of either revision,
  after any number \<open>n\<close> of increment steps
  \<open>currentPingNumInc\<close> has not overflowed, \<open>0 \<le> currentPingNum < PING_MAX_COUNT\<close>, the cursor
  is \<open>n\<close> modulo the capacity, and \<open>firstRun\<close> is still true exactly when fewer than
  \<open>PING_MAX_COUNT\<close> steps have been taken: it becomes false at the step that completes the
  first lap, not before, and never becomes true again.
\<close>

theorem cursor_in_range_and_wraps:
  assumes "0 < PING_MAX_COUNT cfg" and "PING_MAX_COUNT cfg \<le> INT_MAX"
    and "currentPingNum g = 0" and "firstRun g"
  shows "\<exists>g'. inc_times cfg n g = Inr g' \<and>
           0 \<le> currentPingNum g' \<and> currentPingNum g' < PING_MAX_COUNT cfg \<and>
           currentPingNum g' = int n mod PING_MAX_COUNT cfg \<and>
           firstRun g' = (int n < PING_MAX_COUNT cfg)"
proof -
  have "0 \<le> currentPingNum g" "currentPingNum g < PING_MAX_COUNT cfg"
    using assms(1,3) by simp_all
  from inc_times_cursor [OF this assms(2), of n] obtain g' where
    g': "inc_times cfg n g = Inr g'"
        "currentPingNum g' = (currentPingNum g + int n) mod PING_MAX_COUNT cfg"
        "firstRun g' = (firstRun g \<and> currentPingNum g + int n < PING_MAX_COUNT cfg)"
    by blast
  have "0 \<le> int n mod PING_MAX_COUNT cfg" "int n mod PING_MAX_COUNT cfg < PING_MAX_COUNT cfg"
    using assms(1) by simp_all
  then show ?thesis using g' assms(3,4) by simp
qed

theorem cursor_in_range_and_wraps_witness:
  "0 < PING_MAX_COUNT evolved_revision \<and> PING_MAX_COUNT evolved_revision \<le> INT_MAX \<and>
   currentPingNum \<lparr>currentPingNum = 0, firstRun = True\<rparr> = 0 \<and>
   firstRun \<lparr>currentPingNum = 0, firstRun = True\<rparr> \<and>
   (\<exists>g'. inc_times evolved_revision 301 \<lparr>currentPingNum = 0, firstRun = True\<rparr> = Inr g' \<and>
      0 \<le> currentPingNum g' \<and> currentPingNum g' < 300 \<and>
      currentPingNum g' = 1 \<and> firstRun g' = False)"
  using cursor_in_range_and_wraps
          [of evolved_revision "\<lparr>currentPingNum = 0, firstRun = True\<rparr>" 301]
  by (simp add: evolved_revision_def INT_MAX_def)


section \<open>The loop of the range average\<close>

lemma avg_loop_count:
  assumes "\<forall>i<length vs. getBool data (x + int i) = Inr (vs ! i)"
  shows "avg_loop data x (x + int (length vs)) s = Inr (s + int (length (filter id vs)))"
  using assms
proof (induction vs arbitrary: x s)
  case Nil
  then show ?case by (simp add: avg_loop.simps)
next
  case (Cons v vs)
  have h: "getBool data x = Inr v" using Cons.prems by force
  have "\<forall>i<length vs. getBool data (x + 1 + int i) = Inr (vs ! i)"
  proof (intro allI impI)
    fix i assume "i < length vs"
    then have "getBool data (x + int (Suc i)) = Inr ((v # vs) ! Suc i)"
      using Cons.prems by (metis Suc_less_eq length_Cons)
    then show "getBool data (x + 1 + int i) = Inr (vs ! i)" by (simp add: ac_simps)
  qed
  from Cons.IH [OF this]
  have ih: "\<And>s. avg_loop data (x + 1) (x + 1 + int (length vs)) s = Inr (s + int (length (filter id vs)))" .
  have e: "x + int (length (v # vs)) = x + 1 + int (length vs)" by simp
  show ?case
    unfolding e
    by (subst avg_loop.simps) (simp add: h ih)
qed

lemma count_true_le: "count_true vs \<le> int (length vs)"
  by (simp add: count_true_def)

lemma getAvgBool_range_count:
  assumes bits: "\<forall>i<length vs. getBool data (int i) = Inr (vs ! i)"
    and "vs \<noteq> []" and "int (length vs) \<le> INT_MAX" and "count_true vs * 100 \<le> INT_MAX"
  shows "getAvgBool_range data 0 (int (length vs)) = Inr ((count_true vs * 100) div int (length vs))"
proof -
  have "avg_loop data 0 (0 + int (length vs)) 0 = Inr (0 + int (length (filter id vs)))"
    by (rule avg_loop_count) (use bits in simp)
  then have l: "avg_loop data 0 (int (length vs)) 0 = Inr (count_true vs)"
    by (simp add: count_true_def)
  have c0: "0 \<le> count_true vs" by (simp add: count_true_def)
  have "(count_true vs * 100) sdiv int (length vs) = (count_true vs * 100) div int (length vs)"
    using c0 assms(2) by (simp add: signed_divide_int_def sgn_if)
  then show ?thesis
    using assms(2-4) c0 by (simp add: getAvgBool_range_def l int16_def INT_MIN_def)
qed

lemma getBool_bits:
  assumes "int n \<le> 8 * int (length data)" "i < n"
  shows "getBool data (int i) = Inr (bits data n ! i)"
proof -
  have "nat (int i div 8) = i div 8" "nat (int i mod 8) = i mod 8"
    by (simp_all add: nat_div_distrib nat_mod_distrib)
  then show ?thesis
    using assms getBool_bit [of "int i" data] by (simp add: bits_def)
qed

lemma getAvgBool_range_ok:
  assumes "0 < n" "int n \<le> 8 * int (length data)" "int n * 100 \<le> INT_MAX"
  shows "getAvgBool_range data 0 (int n) = Inr ((count_true (bits data n) * 100) div int n)"
proof -
  have len: "length (bits data n) = n" by (simp add: bits_def)
  have "count_true (bits data n) \<le> int n" using count_true_le [of "bits data n"] len by simp
  then have c: "count_true (bits data n) * 100 \<le> INT_MAX" using assms(3) by simp
  have n: "int n \<le> INT_MAX" using assms(3) by simp
  have "getAvgBool_range data 0 (int (length (bits data n))) =
          Inr ((count_true (bits data n) * 100) div int (length (bits data n)))"
  proof (rule getAvgBool_range_count)
    show "\<forall>i<length (bits data n). getBool data (int i) = Inr (bits data n ! i)"
      using assms(2) by (simp add: len getBool_bits)
    show "bits data n \<noteq> []" using assms(1) len by auto
    show "int (length (bits data n)) \<le> INT_MAX" using n len by simp
    show "count_true (bits data n) * 100 \<le> INT_MAX" by (rule c)
  qed
  then show ?thesis by (simp add: len)
qed

section \<open>One call of the main loop\<close>

lemma all_target: "(\<forall>t. P t) \<longleftrightarrow> P Gateway \<and> P FirstAddr \<and> P SecondAddr"
  by (metis target.exhaust)

lemma getAvgBool_range_nat:
  assumes "0 < w" "w \<le> 8 * int (length data)" "w * 100 \<le> INT_MAX"
  shows "getAvgBool_range data 0 w = Inr ((count_true (bits data (nat w)) * 100) div w)"
  using getAvgBool_range_ok [of "nat w" data] assms by simp

lemma loop_step:
  assumes cap: "PING_MAX_COUNT cfg * 100 \<le> INT_MAX"
    and cur: "0 \<le> currentPingNum g" "currentPingNum g < PING_MAX_COUNT cfg"
    and sz: "sized cfg g"
  shows "\<exists>g'. loop cfg g c = Inr g' \<and>
           (\<forall>t. setBool (pings t g) (currentPingNum g) (sample t c) = Inr (pings t g')) \<and>
           currentPingNum g' = (currentPingNum g + 1) mod PING_MAX_COUNT cfg \<and>
           firstRun g' = (firstRun g \<and> currentPingNum g + 1 < PING_MAX_COUNT cfg) \<and>
           0 < logical_window_size cfg g' \<and>
           (\<forall>t. getAvgBool_range (pings t g') 0 (logical_window_size cfg g') = Inr (loss t g')) \<and>
           sized cfg g'"
proof -
  obtain gw a1 a2 where c: "c = (gw, a1, a2)" by (cases c) auto
  let ?cap = "PING_MAX_COUNT cfg" and ?cur = "currentPingNum g"
  have capmax: "?cap \<le> INT_MAX" using cap cur by linarith
  have in1: "?cur < 8 * int (length (gatewayPings g))"
    and in2: "?cur < 8 * int (length (firstAddrPings g))"
    and in3: "?cur < 8 * int (length (secondAddrPings g))"
    using sz cur(2) by (auto simp: sized_def all_target)
  obtain d1 where d1: "setBool (gatewayPings g) ?cur (\<not> doPing gw) = Inr d1"
    using setBool_ok [OF cur(1) in1] by blast
  obtain d2 where d2: "setBool (firstAddrPings g) ?cur (\<not> doPing a1) = Inr d2"
    using setBool_ok [OF cur(1) in2] by blast
  obtain d3 where d3: "setBool (secondAddrPings g) ?cur (\<not> doPing a2) = Inr d3"
    using setBool_ok [OF cur(1) in3] by blast
  have l1: "length d1 = length (gatewayPings g)" using d1 by (rule setBool_length)
  have l2: "length d2 = length (firstAddrPings g)" using d2 by (rule setBool_length)
  have l3: "length d3 = length (secondAddrPings g)" using d3 by (rule setBool_length)
  let ?g0 = "g\<lparr>gatewayPings := d1, firstAddrPings := d2, secondAddrPings := d3\<rparr>"
  define g1 where "g1 = (if ?cur + 1 = ?cap
                then ?g0\<lparr>currentPingNum := 0, firstRun := False\<rparr>
                else ?g0\<lparr>currentPingNum := ?cur + 1\<rparr>)"
  have inc: "currentPingNumInc cfg ?g0 = Inr g1"
    unfolding g1_def using cur capmax by (subst currentPingNumInc_eq) simp_all
  have p1: "gatewayPings g1 = d1" "firstAddrPings g1 = d2" "secondAddrPings g1 = d3"
    by (simp_all add: g1_def)
  have c1: "currentPingNum g1 = (?cur + 1) mod ?cap"
    using cur by (simp add: g1_def)
  have f1: "firstRun g1 = (firstRun g \<and> ?cur + 1 < ?cap)"
    using cur by (auto simp: g1_def)
  let ?w = "logical_window_size cfg g1"
  have w0: "0 < ?w" using cur by (simp add: logical_window_size_def g1_def)
  have wcap: "?w \<le> ?cap" using cur by (simp add: logical_window_size_def g1_def)
  have w100: "?w * 100 \<le> INT_MAX" using wcap cap by linarith
  have szd: "?cap \<le> 8 * int (length d1)" "?cap \<le> 8 * int (length d2)" "?cap \<le> 8 * int (length d3)"
    using sz l1 l2 l3 by (auto simp: sized_def all_target)
  obtain v1 where v1: "getAvgBool_range d1 0 ?w = Inr v1"
    using getAvgBool_range_nat [OF w0 _ w100, of d1] wcap szd by force
  obtain v2 where v2: "getAvgBool_range d2 0 ?w = Inr v2"
    using getAvgBool_range_nat [OF w0 _ w100, of d2] wcap szd by force
  obtain v3 where v3: "getAvgBool_range d3 0 ?w = Inr v3"
    using getAvgBool_range_nat [OF w0 _ w100, of d3] wcap szd by force
  have wrap: "\<And>data. getAvgBool cfg g1 data = getAvgBool_range data 0 ?w"
    by (simp add: getAvgBool_def logical_window_size_def)
  let ?g' = "g1\<lparr>gatewayAvgLoss := v1, firstAddrLoss := v2, secondAddrLoss := v3\<rparr>"
  have res: "loop cfg g c = Inr ?g'"
    by (simp add: loop_def c d1 d2 d3 inc p1 wrap v1 v2 v3)
  have w': "logical_window_size cfg ?g' = ?w" by (simp add: logical_window_size_def)
  show ?thesis
  proof (intro exI conjI)
    show "loop cfg g c = Inr ?g'" by (rule res)
    show "\<forall>t. setBool (pings t g) ?cur (sample t c) = Inr (pings t ?g')"
      by (simp add: all_target sample_def c d1 d2 d3 p1)
    show "currentPingNum ?g' = (?cur + 1) mod ?cap" using c1 by simp
    show "firstRun ?g' = (firstRun g \<and> ?cur + 1 < ?cap)" using f1 by simp
    show "0 < logical_window_size cfg ?g'" using w0 w' by simp
    show "\<forall>t. getAvgBool_range (pings t ?g') 0 (logical_window_size cfg ?g') = Inr (loss t ?g')"
      unfolding w' by (simp add: all_target p1 v1 v2 v3)
    show "sized cfg ?g'" using szd by (simp add: sized_def all_target p1)
  qed
qed

section \<open>Successive calls of the main loop\<close>

lemma run_snoc:
  "run cfg g (cs @ [c]) = (case run cfg g cs of Inl e \<Rightarrow> Inl e | Inr g' \<Rightarrow> loop cfg g' c)"
  by (induction cs arbitrary: g) (auto split: sum.splits)

lemma image_shift:
  "(\<lambda>k. f (int k)) ` {..<Suc n} = insert (f 0) ((\<lambda>k. f (1 + int k)) ` {..<n})"
proof -
  have "(\<lambda>k. f (int k)) ` {..<Suc n} = (\<lambda>k. f (int k)) ` (insert 0 (Suc ` {..<n}))"
    by (simp only: lessThan_Suc_eq_insert_0)
  also have "\<dots> = insert (f 0) ((\<lambda>k. f (1 + int k)) ` {..<n})"
    by (simp add: image_image)
  finally show ?thesis .
qed

lemma run_invariant:
  assumes cap: "PING_MAX_COUNT cfg * 100 \<le> INT_MAX"
    and cur: "0 \<le> currentPingNum g" "currentPingNum g < PING_MAX_COUNT cfg"
    and sz: "sized cfg g"
  shows "\<exists>g'. run cfg g cs = Inr g' \<and>
           currentPingNum g' = (currentPingNum g + int (length cs)) mod PING_MAX_COUNT cfg \<and>
           firstRun g' = (firstRun g \<and> currentPingNum g + int (length cs) < PING_MAX_COUNT cfg) \<and>
           sized cfg g' \<and>
           written cfg g cs =
             (\<lambda>k. (currentPingNum g + int k) mod PING_MAX_COUNT cfg) ` {..<length cs} \<and>
           (cs \<noteq> [] \<longrightarrow> 0 < logical_window_size cfg g' \<and>
              (\<forall>t. getAvgBool_range (pings t g') 0 (logical_window_size cfg g') = Inr (loss t g')))"
  using cur sz
proof (induction cs arbitrary: g)
  case Nil
  then show ?case by simp
next
  case (Cons c cs)
  let ?cap = "PING_MAX_COUNT cfg" and ?cur = "currentPingNum g"
  from loop_step [OF cap Cons.prems, of c] obtain g1 where
    g1: "loop cfg g c = Inr g1"
        "currentPingNum g1 = (?cur + 1) mod ?cap"
        "firstRun g1 = (firstRun g \<and> ?cur + 1 < ?cap)"
        "0 < logical_window_size cfg g1"
        "\<forall>t. getAvgBool_range (pings t g1) 0 (logical_window_size cfg g1) = Inr (loss t g1)"
        "sized cfg g1"
    by blast
  have r1: "0 \<le> currentPingNum g1" "currentPingNum g1 < ?cap"
    using Cons.prems(1,2) g1(2) by simp_all
  from Cons.IH [OF r1 g1(6)] obtain g' where
    g': "run cfg g1 cs = Inr g'"
        "currentPingNum g' = (currentPingNum g1 + int (length cs)) mod ?cap"
        "firstRun g' = (firstRun g1 \<and> currentPingNum g1 + int (length cs) < ?cap)"
        "sized cfg g'"
        "written cfg g1 cs = (\<lambda>k. (currentPingNum g1 + int k) mod ?cap) ` {..<length cs}"
        "cs \<noteq> [] \<longrightarrow> 0 < logical_window_size cfg g' \<and>
              (\<forall>t. getAvgBool_range (pings t g') 0 (logical_window_size cfg g') = Inr (loss t g'))"
    by blast
  have shift: "(currentPingNum g1 + int k) mod ?cap = (?cur + (1 + int k)) mod ?cap" for k
  proof -
    have "(currentPingNum g1 + int k) mod ?cap = ((?cur + 1) mod ?cap + int k) mod ?cap"
      by (simp add: g1(2))
    also have "\<dots> = (?cur + 1 + int k) mod ?cap" by (rule mod_add_left_eq)
    finally show ?thesis by (simp add: add.assoc)
  qed
  have cur0: "?cur mod ?cap = ?cur" using Cons.prems(1,2) by simp
  have A: "run cfg g (c # cs) = Inr g'" by (simp add: g1(1) g'(1))
  have B: "currentPingNum g' = (?cur + int (length (c # cs))) mod ?cap"
    using g'(2) shift [of "length cs"] by (simp add: ac_simps)
  have C: "firstRun g' = (firstRun g \<and> ?cur + int (length (c # cs)) < ?cap)"
  proof (cases "?cur + 1 < ?cap")
    case True
    then have "currentPingNum g1 = ?cur + 1" using Cons.prems(1) g1(2) by simp
    then show ?thesis using g'(3) g1(3) True by auto
  next
    case False
    then show ?thesis using g'(3) g1(3) by auto
  qed
  have D: "written cfg g (c # cs) = (\<lambda>k. (?cur + int k) mod ?cap) ` {..<length (c # cs)}"
    using image_shift [of "\<lambda>i. (?cur + i) mod ?cap" "length cs"]
    by (simp add: g1(1) g'(5) shift cur0)
  have E: "0 < logical_window_size cfg g' \<and>
              (\<forall>t. getAvgBool_range (pings t g') 0 (logical_window_size cfg g') = Inr (loss t g'))"
  proof (cases "cs = []")
    case True
    then have "g' = g1" using g'(1) by simp
    then show ?thesis using g1(4,5) by simp
  next
    case False
    then show ?thesis using g'(6) by simp
  qed
  show ?case using A B C D E g'(4) by blast
qed

lemma image_mod_lessThan:
  assumes "0 < (cap::int)"
  shows "(\<lambda>k. int k mod cap) ` {..<n} = {0..<min (int n) cap}"
proof (intro equalityI subsetI)
  fix p assume "p \<in> (\<lambda>k. int k mod cap) ` {..<n}"
  then obtain k where k: "k < n" "p = int k mod cap" by auto
  have "0 \<le> p" "p < cap" using assms k(2) by simp_all
  moreover have "p \<le> int k" using k(2) by (simp add: zmod_le_nonneg_dividend)
  ultimately show "p \<in> {0..<min (int n) cap}" using k(1) by simp
next
  fix p assume p: "p \<in> {0..<min (int n) cap}"
  then have "nat p < n" "int (nat p) mod cap = p" by (simp_all add: nat_less_iff)
  then show "p \<in> (\<lambda>k. int k mod cap) ` {..<n}" by (metis imageI lessThan_iff)
qed

lemma setup_good:
  assumes "usable cfg"
  shows "sized cfg (setup_globals cfg)" "currentPingNum (setup_globals cfg) = 0"
    "firstRun (setup_globals cfg)" "0 < PING_MAX_COUNT cfg" "PING_MAX_COUNT cfg * 100 \<le> INT_MAX"
proof -
  have "0 < PING_BYTE_MAX cfg" using assms by (simp add: usable_def)
  then show "sized cfg (setup_globals cfg)"
    using assms by (simp add: sized_def all_target setup_globals_def usable_def)
qed (use assms in \<open>simp_all add: setup_globals_def usable_def\<close>)

lemma run_from_setup:
  assumes "usable cfg"
  shows "\<exists>g. run cfg (setup_globals cfg) cs = Inr g \<and>
           currentPingNum g = int (length cs) mod PING_MAX_COUNT cfg \<and>
           firstRun g = (int (length cs) < PING_MAX_COUNT cfg) \<and>
           sized cfg g \<and>
           written cfg (setup_globals cfg) cs = {0..<min (int (length cs)) (PING_MAX_COUNT cfg)} \<and>
           (cs \<noteq> [] \<longrightarrow> 0 < logical_window_size cfg g \<and>
              (\<forall>t. getAvgBool_range (pings t g) 0 (logical_window_size cfg g) = Inr (loss t g)))"
proof -
  note s = setup_good [OF assms]
  have "0 \<le> currentPingNum (setup_globals cfg)"
       "currentPingNum (setup_globals cfg) < PING_MAX_COUNT cfg"
    using s(2,4) by simp_all
  from run_invariant [OF s(5) this s(1), of cs]
  show ?thesis
    using s(2,3) image_mod_lessThan [OF s(4), of "length cs"] by simp
qed

lemma window_after_run:
  assumes "0 < PING_MAX_COUNT cfg"
    and "currentPingNum g = int n mod PING_MAX_COUNT cfg"
    and "firstRun g = (int n < PING_MAX_COUNT cfg)"
  shows "logical_window_size cfg g = min (int n) (PING_MAX_COUNT cfg)"
  using assms by (simp add: logical_window_size_def)

lemma getAvgBool_window:
  "getAvgBool cfg g data = getAvgBool_range data 0 (logical_window_size cfg g)"
  by (simp add: getAvgBool_def logical_window_size_def)

lemma usable_first: "usable first_revision"
  by (simp add: usable_def first_revision_def INT_MAX_def PING_BYTE_MAX_def int_cast_def)

lemma run_Inr_sized:
  assumes "usable cfg" "run cfg (setup_globals cfg) cs = Inr g"
  shows "sized cfg g" "currentPingNum g = int (length cs) mod PING_MAX_COUNT cfg"
    "firstRun g = (int (length cs) < PING_MAX_COUNT cfg)"
  using run_from_setup [OF assms(1), of cs] assms(2) by auto

lemma sized_bound:
  "sized cfg g \<Longrightarrow> p < PING_MAX_COUNT cfg \<Longrightarrow> p < 8 * int (length (pings t g))"
  by (simp add: sized_def) (metis order_less_le_trans)

lemma first_lap:
  assumes u: "usable cfg" and n: "int (length cs) \<le> PING_MAX_COUNT cfg"
  shows "\<exists>g. run cfg (setup_globals cfg) cs = Inr g \<and>
           (\<forall>t. \<forall>i<length cs. getBool (pings t g) (int i) = Inr (sample t (cs ! i)))"
  using n
proof (induction cs rule: rev_induct)
  case Nil
  then show ?case by simp
next
  case (snoc c cs)
  let ?cap = "PING_MAX_COUNT cfg" and ?n = "int (length cs)"
  have lt: "?n < ?cap" using snoc.prems by simp
  from snoc.IH lt obtain g where
    g: "run cfg (setup_globals cfg) cs = Inr g"
       "\<forall>t. \<forall>i<length cs. getBool (pings t g) (int i) = Inr (sample t (cs ! i))"
    by auto
  have sz: "sized cfg g" and cur: "currentPingNum g = ?n"
    using run_Inr_sized [OF u g(1)] lt by simp_all
  have c100: "?cap * 100 \<le> INT_MAX" using u by (simp add: usable_def)
  have "0 \<le> currentPingNum g" "currentPingNum g < ?cap" using cur lt by simp_all
  from loop_step [OF c100 this sz, of c] obtain g' where
    g': "loop cfg g c = Inr g'"
        "\<forall>t. setBool (pings t g) (currentPingNum g) (sample t c) = Inr (pings t g')"
    by blast
  have r: "run cfg (setup_globals cfg) (cs @ [c]) = Inr g'"
    by (simp add: run_snoc g(1) g'(1))
  have "getBool (pings t g') (int i) = Inr (sample t ((cs @ [c]) ! i))"
    if i: "i < length (cs @ [c])" for t i
  proof -
    have s: "setBool (pings t g) ?n (sample t c) = Inr (pings t g')"
      using g'(2) cur by simp
    have b: "?n < 8 * int (length (pings t g))" using sz lt by (rule sized_bound)
    show ?thesis
    proof (cases "i = length cs")
      case True
      then show ?thesis
        using getBool_setBool_same [OF _ b s] by simp
    next
      case False
      then have il: "i < length cs" using i by simp
      then have "getBool (pings t g') (int i) = getBool (pings t g) (int i)"
        using getBool_setBool_other [OF _ b s, of "int i"] b by simp
      then show ?thesis using g(2) il by (simp add: nth_append)
    qed
  qed
  then show ?case using r by blast
qed

text \<open>
  C3. After exactly \<open>PING_MAX_COUNT\<close> calls of \<open>loop()\<close> from the state \<open>setup\<close> leaves, the
  logical window size is the capacity, \<open>firstRun\<close> is false and the cursor is back at 0. One
  more call, whatever its three pings, writes at position 0 only; afterwards, for every
  target, bit 0 holds the new sample, every other position below the capacity still holds the
  sample of the first lap, and the cached loss is the integer percentage of the window made
  of the new sample followed by samples 2 to \<open>PING_MAX_COUNT\<close> of the first lap.
\<close>

theorem full_buffer_then_overwrite:
  assumes "usable cfg" and "int (length cs) = PING_MAX_COUNT cfg"
  shows "\<exists>g. run cfg (setup_globals cfg) cs = Inr g \<and>
           logical_window_size cfg g = PING_MAX_COUNT cfg \<and>
           \<not> firstRun g \<and> currentPingNum g = 0 \<and>
           (\<forall>c. \<exists>g'. loop cfg g c = Inr g' \<and>
                  written cfg g [c] = {0} \<and>
                  logical_window_size cfg g' = PING_MAX_COUNT cfg \<and>
                  (\<forall>t. getBool (pings t g') 0 = Inr (sample t c) \<and>
                       (\<forall>p. 0 < p \<and> p < PING_MAX_COUNT cfg \<longrightarrow>
                            getBool (pings t g') p = Inr (sample t (cs ! nat p))) \<and>
                       loss t g' =
                         (count_true (sample t c # tl (map (sample t) cs)) * 100)
                           div PING_MAX_COUNT cfg))"
proof -
  let ?cap = "PING_MAX_COUNT cfg"
  have cap0: "0 < ?cap" and c100: "?cap * 100 \<le> INT_MAX"
    using assms(1) by (simp_all add: usable_def)
  have capmax: "?cap \<le> INT_MAX" using cap0 c100 by linarith
  from first_lap [OF assms(1), of cs] assms(2) obtain g where
    g: "run cfg (setup_globals cfg) cs = Inr g"
       "\<forall>t. \<forall>i<length cs. getBool (pings t g) (int i) = Inr (sample t (cs ! i))"
    by auto
  have sz: "sized cfg g" and cur: "currentPingNum g = 0" and fr: "\<not> firstRun g"
    using run_Inr_sized [OF assms(1) g(1)] assms(2) by simp_all
  have w: "logical_window_size cfg g = ?cap" using fr by (simp add: logical_window_size_def)
  have step: "\<exists>g'. loop cfg g c = Inr g' \<and>
                  written cfg g [c] = {0} \<and>
                  logical_window_size cfg g' = ?cap \<and>
                  (\<forall>t. getBool (pings t g') 0 = Inr (sample t c) \<and>
                       (\<forall>p. 0 < p \<and> p < ?cap \<longrightarrow>
                            getBool (pings t g') p = Inr (sample t (cs ! nat p))) \<and>
                       loss t g' =
                         (count_true (sample t c # tl (map (sample t) cs)) * 100) div ?cap)"
    for c
  proof -
    have "0 \<le> currentPingNum g" "currentPingNum g < ?cap" using cur cap0 by simp_all
    from loop_step [OF c100 this sz, of c] obtain g' where
      g': "loop cfg g c = Inr g'"
          "\<forall>t. setBool (pings t g) (currentPingNum g) (sample t c) = Inr (pings t g')"
          "firstRun g' = (firstRun g \<and> currentPingNum g + 1 < ?cap)"
          "\<forall>t. getAvgBool_range (pings t g') 0 (logical_window_size cfg g') = Inr (loss t g')"
      by blast
    have w': "logical_window_size cfg g' = ?cap"
      using g'(3) fr by (simp add: logical_window_size_def)
    have wr: "written cfg g [c] = {0}" by (simp add: g'(1) cur)
    have tgt: "getBool (pings t g') 0 = Inr (sample t c) \<and>
                 (\<forall>p. 0 < p \<and> p < ?cap \<longrightarrow>
                      getBool (pings t g') p = Inr (sample t (cs ! nat p))) \<and>
                 loss t g' = (count_true (sample t c # tl (map (sample t) cs)) * 100) div ?cap"
      for t
    proof -
      have s: "setBool (pings t g) 0 (sample t c) = Inr (pings t g')" using g'(2) cur by simp
      have b: "0 < 8 * int (length (pings t g))" using sz cap0 by (rule sized_bound)
      have z: "getBool (pings t g') 0 = Inr (sample t c)"
        using getBool_setBool_same [OF _ b s] by simp
      have o: "getBool (pings t g') p = Inr (sample t (cs ! nat p))" if p: "0 < p" "p < ?cap" for p
      proof -
        have pb: "p < 8 * int (length (pings t g))" using sz p(2) by (rule sized_bound)
        have "getBool (pings t g') p = getBool (pings t g) p"
          using getBool_setBool_other [OF _ b s, of p] p(1) pb by simp
        moreover have "nat p < length cs" using p assms(2) by simp
        ultimately show ?thesis using g(2) p(1) by (metis int_nat_eq less_le)
      qed
      let ?vs = "sample t c # tl (map (sample t) cs)"
      have csne: "cs \<noteq> []" using assms(2) cap0 by auto
      have len: "int (length ?vs) = ?cap" using assms(2) csne by (simp add: Suc_pred')
      have bits: "\<forall>i<length ?vs. getBool (pings t g') (int i) = Inr (?vs ! i)"
      proof (intro allI impI)
        fix i assume i: "i < length ?vs"
        show "getBool (pings t g') (int i) = Inr (?vs ! i)"
        proof (cases i)
          case 0
          then show ?thesis using z by simp
        next
          case (Suc j)
          have "int i < ?cap" using i len by linarith
          moreover have "0 < int i" "nat (int i) = i" using Suc by simp_all
          ultimately have "getBool (pings t g') (int i) = Inr (sample t (cs ! i))"
            using o [of "int i"] by (simp only:)
          moreover have "?vs ! i = sample t (cs ! i)"
            using Suc i csne by (simp add: nth_tl)
          ultimately show ?thesis by simp
        qed
      qed
      have "count_true ?vs \<le> int (length ?vs)" by (rule count_true_le)
      then have cnt: "count_true ?vs * 100 \<le> INT_MAX" using len c100 by linarith
      have "getAvgBool_range (pings t g') 0 (int (length ?vs)) =
              Inr ((count_true ?vs * 100) div int (length ?vs))"
        by (rule getAvgBool_range_count [OF bits]) (use len capmax cnt in simp_all)
      then have "loss t g' = (count_true ?vs * 100) div ?cap"
        using g'(4) w' len by (metis sum.inject(2))
      then show ?thesis using z o by blast
    qed
    show ?thesis using g'(1) wr w' tgt by blast
  qed
  show ?thesis using g(1) w fr cur step by blast
qed

theorem full_buffer_then_overwrite_witness:
  "usable (first_revision\<lparr>PING_MAX_COUNT := 4\<rparr>) \<and>
   int (length [(OTHER 2, SUCCESS, SUCCESS), (SUCCESS, SUCCESS, SUCCESS),
                (SUCCESS, SUCCESS, SUCCESS), (SUCCESS, SUCCESS, SUCCESS)]) =
     PING_MAX_COUNT (first_revision\<lparr>PING_MAX_COUNT := 4\<rparr>) \<and>
   (\<exists>g. run (first_revision\<lparr>PING_MAX_COUNT := 4\<rparr>)
           (setup_globals (first_revision\<lparr>PING_MAX_COUNT := 4\<rparr>))
           [(OTHER 2, SUCCESS, SUCCESS), (SUCCESS, SUCCESS, SUCCESS),
            (SUCCESS, SUCCESS, SUCCESS), (SUCCESS, SUCCESS, SUCCESS)] = Inr g \<and>
      \<not> firstRun g \<and> currentPingNum g = 0 \<and>
      (\<exists>g'. loop (first_revision\<lparr>PING_MAX_COUNT := 4\<rparr>) g (SUCCESS, OTHER 2, SUCCESS) = Inr g' \<and>
         getBool (gatewayPings g') 0 = Inr False \<and> gatewayAvgLoss g' = 0 \<and>
         getBool (firstAddrPings g') 0 = Inr True \<and> firstAddrLoss g' = 25))"
proof -
  let ?cfg = "first_revision\<lparr>PING_MAX_COUNT := 4\<rparr>"
  let ?cs = "[(OTHER 2, SUCCESS, SUCCESS), (SUCCESS, SUCCESS, SUCCESS),
              (SUCCESS, SUCCESS, SUCCESS), (SUCCESS, SUCCESS, SUCCESS)]"
  have u: "usable ?cfg"
    by (simp add: usable_def first_revision_def INT_MAX_def PING_BYTE_MAX_def int_cast_def)
  have n: "int (length ?cs) = PING_MAX_COUNT ?cfg" by simp
  from full_buffer_then_overwrite [OF u n] obtain g where
    g: "run ?cfg (setup_globals ?cfg) ?cs = Inr g" "\<not> firstRun g" "currentPingNum g = 0"
       "\<forall>c. \<exists>g'. loop ?cfg g c = Inr g' \<and>
              written ?cfg g [c] = {0} \<and>
              logical_window_size ?cfg g' = PING_MAX_COUNT ?cfg \<and>
              (\<forall>t. getBool (pings t g') 0 = Inr (sample t c) \<and>
                   (\<forall>p. 0 < p \<and> p < PING_MAX_COUNT ?cfg \<longrightarrow>
                        getBool (pings t g') p = Inr (sample t (?cs ! nat p))) \<and>
                   loss t g' =
                     (count_true (sample t c # tl (map (sample t) ?cs)) * 100)
                       div PING_MAX_COUNT ?cfg)"
    by blast
  from g(4) obtain g' where
    g': "loop ?cfg g (SUCCESS, OTHER 2, SUCCESS) = Inr g'"
        "\<forall>t. getBool (pings t g') 0 = Inr (sample t (SUCCESS, OTHER 2, SUCCESS)) \<and>
             loss t g' =
               (count_true (sample t (SUCCESS, OTHER 2, SUCCESS) # tl (map (sample t) ?cs)) * 100)
                 div PING_MAX_COUNT ?cfg"
    by blast
  have "getBool (gatewayPings g') 0 = Inr False" "gatewayAvgLoss g' = 0"
    using g'(2) [rule_format, of Gateway] by (simp_all add: sample_def doPing_def count_true_def)
  moreover have "getBool (firstAddrPings g') 0 = Inr True" "firstAddrLoss g' = 25"
    using g'(2) [rule_format, of FirstAddr] by (simp_all add: sample_def doPing_def count_true_def)
  ultimately show ?thesis using u n g(1-3) g'(1) by blast
qed

section \<open>The range average of recorded samples\<close>

lemma setBool_Inr_bound:
  assumes "setBool data pos v = Inr data'" "0 \<le> pos"
  shows "pos < 8 * int (length data)"
proof -
  have "in_array data (pos sdiv 8)"
    using assms(1) by (auto simp: setBool_def Let_def split: if_splits)
  then have "pos div 8 < int (length data)" using assms(2) by (simp add: in_array_def pos_split)
  then show ?thesis by linarith
qed

lemma setBools_bits:
  assumes "setBools data pos vs = Inr data'" "0 \<le> pos"
  shows "length data' = length data \<and>
         (\<forall>i<length vs. getBool data' (pos + int i) = Inr (vs ! i)) \<and>
         (\<forall>q. 0 \<le> q \<and> q < pos \<longrightarrow> getBool data' q = getBool data q)"
  using assms
proof (induction vs arbitrary: data pos)
  case Nil
  then show ?case by simp
next
  case (Cons v vs)
  from Cons.prems(1) obtain d where
    d: "setBool data pos v = Inr d" "setBools d (pos + 1) vs = Inr data'"
    by (auto split: sum.splits)
  have b: "pos < 8 * int (length data)" using d(1) Cons.prems(2) by (rule setBool_Inr_bound)
  have ld: "length d = length data" using d(1) by (rule setBool_length)
  have "0 \<le> pos + 1" using Cons.prems(2) by simp
  from Cons.IH [OF d(2) this] have
    ih: "length data' = length d"
        "\<forall>i<length vs. getBool data' (pos + 1 + int i) = Inr (vs ! i)"
        "\<forall>q. 0 \<le> q \<and> q < pos + 1 \<longrightarrow> getBool data' q = getBool d q"
    by blast+
  have same: "getBool d pos = Inr v"
    using Cons.prems(2) b d(1) by (rule getBool_setBool_same)
  have "getBool data' (pos + int i) = Inr ((v # vs) ! i)" if "i < length (v # vs)" for i
  proof (cases i)
    case 0
    then show ?thesis using ih(3) same Cons.prems(2) by simp
  next
    case (Suc j)
    then have "j < length vs" using that by simp
    then have "getBool data' (pos + 1 + int j) = Inr (vs ! j)" using ih(2) by blast
    then show ?thesis using Suc by (simp add: add.assoc)
  qed
  moreover have "getBool data' q = getBool data q" if q: "0 \<le> q" "q < pos" for q
  proof -
    have "getBool data' q = getBool d q" using ih(3) q by simp
    also have "\<dots> = getBool data q"
      using getBool_setBool_other [OF Cons.prems(2) b d(1), of q] q b by simp
    finally show ?thesis .
  qed
  ultimately show ?case using ih(1) ld by simp
qed

lemma setBools_example:
  "setBools [0x00] 0 [True, False, False] = Inr [0x01]"
  "setBools [0x00] 0 [True, False, False, False] = Inr [0x01]"
  by (simp_all add: setBool_def Let_def in_array_def BIT_MASK_def signed_divide_int_def
        signed_modulo_int_def)

lemma getBool_all_ones:
  assumes "i < 8 * n"
  shows "getBool (replicate n (0xFF::byte)) (int i) = Inr True"
proof -
  have a: "nat (int i div 8) = i div 8" "nat (int i mod 8) = i mod 8"
    by (simp_all add: nat_div_distrib nat_mod_distrib)
  have b: "i div 8 < n" using assms by (simp add: less_mult_imp_div_less mult.commute)
  have "(0xFF::byte) = mask 8" by (simp add: mask_eq_exp_minus_1)
  then have "bit (0xFF::byte) (i mod 8)" by (simp only: bit_mask_iff) simp
  then show ?thesis
    using getBool_bit [of "int i" "replicate n 0xFF"] assms a b by simp
qed

text \<open>
  C2, as amended. For an array of any size and any non-empty sequence of samples recorded
  into it with \<open>setBool\<close> at positions \<open>0, 1, \<dots>\<close> (the recording succeeds only when the
  array has a bit for each of them), of which at most 327 are true, the range average over
  \<open>[0, N)\<close> is the integer percentage \<open>(count_true * 100) div N\<close>: the exact percentage
  rounded down to a whole number, whatever the size of the array.
\<close>

theorem range_average_is_truncated_percentage:
  assumes "setBools data 0 vs = Inr data'" and "vs \<noteq> []"
    and "int (length vs) \<le> INT_MAX" and "count_true vs * 100 \<le> INT_MAX"
  shows "getAvgBool_range data' 0 (int (length vs)) =
           Inr ((count_true vs * 100) div int (length vs))"
proof -
  have "length data' = length data"
    and bits: "\<forall>i<length vs. getBool data' (0 + int i) = Inr (vs ! i)"
    using setBools_bits [OF assms(1)] by simp_all
  from bits have "\<forall>i<length vs. getBool data' (int i) = Inr (vs ! i)" by simp
  then show ?thesis using assms(2-4) by (rule getAvgBool_range_count)
qed

theorem range_average_is_truncated_percentage_witness:
  "setBools [0x00] 0 [True, False, False, False] = Inr [0x01] \<and>
   [True, False, False, False] \<noteq> [] \<and>
   int (length [True, False, False, False]) \<le> INT_MAX \<and>
   count_true [True, False, False, False] * 100 \<le> INT_MAX \<and>
   getAvgBool_range [0x01] 0 4 = Inr 25"
  using range_average_is_truncated_percentage
          [OF setBools_example(2), of ] setBools_example(2)
  by (simp add: INT_MAX_def count_true_def)

text \<open>
  The claim as stated fails twice. Three samples of which one is true average to 33, which
  is neither the fraction one third nor the percentage 100/3. And 328 true samples make
  \<open>sum * 100\<close> overflow the 16-bit \<open>int\<close>.
\<close>

theorem range_average_counterexample:
  "setBools [0x00] 0 [True, False, False] = Inr [0x01] \<and>
   getAvgBool_range [0x01] 0 3 = Inr 33 \<and>
   (of_int 33 :: rat) \<noteq> of_int (count_true [True, False, False]) / 3 \<and>
   (of_int 33 :: rat) \<noteq> of_int (count_true [True, False, False]) / 3 * 100 \<and>
   getAvgBool_range (replicate 41 0xFF) 0 328 = Inl IntOverflow"
proof -
  note s = setBools_example(1)
  have "\<forall>i<length [True, False, False]. getBool [0x01] (int i) = Inr ([True, False, False] ! i)"
    using setBools_bits [OF s] by simp
  then have "getAvgBool_range [0x01] 0 (int (length [True, False, False])) =
          Inr ((count_true [True, False, False] * 100) div int (length [True, False, False]))"
    by (rule getAvgBool_range_count) (simp_all add: INT_MAX_def count_true_def)
  then have a: "getAvgBool_range [0x01] 0 3 = Inr 33" by (simp add: count_true_def)
  have c: "(of_int 33 :: rat) \<noteq> of_int (count_true [True, False, False]) / 3"
          "(of_int 33 :: rat) \<noteq> of_int (count_true [True, False, False]) / 3 * 100"
    by (simp_all add: count_true_def)
  have "avg_loop (replicate 41 0xFF) 0 (0 + int (length (replicate 328 True))) 0 =
          Inr (0 + int (length (filter id (replicate 328 True))))"
    by (rule avg_loop_count) (simp add: getBool_all_ones)
  then have "avg_loop (replicate 41 0xFF) 0 328 0 = Inr 328" by simp
  then have o: "getAvgBool_range (replicate 41 0xFF) 0 328 = Inl IntOverflow"
    by (simp add: getAvgBool_range_def int16_def INT_MAX_def)
  show ?thesis using s a c o by blast
qed

section \<open>Faults the main loop cannot reach\<close>

lemma getAvgBool_range_empty: "getAvgBool_range data s s = Inl DivByZero"
  by (simp add: getAvgBool_range_def avg_loop.simps int16_def INT_MIN_def INT_MAX_def)

text \<open>
  C4, as amended. The range average of an empty range is not defined by the code: for
  \<open>startPos = endPos\<close> it divides by zero, there is no guard and no "no data" result. The
  sketch never asks for it: after any positive number of calls of \<open>loop()\<close> from the state
  \<open>setup\<close> leaves, no call has faulted, the window that was averaged holds at least one
  position, and every target's average is a value.
\<close>

theorem loop_never_averages_empty_range:
  assumes "usable cfg" and "cs \<noteq> []"
  shows "(\<forall>data s. getAvgBool_range data s s = Inl DivByZero) \<and>
         (\<exists>g. run cfg (setup_globals cfg) cs = Inr g \<and>
            0 < logical_window_size cfg g \<and>
            (\<forall>t. \<exists>r. getAvgBool_range (pings t g) 0 (logical_window_size cfg g) = Inr r))"
proof -
  from run_from_setup [OF assms(1), of cs] assms(2) obtain g where
    "run cfg (setup_globals cfg) cs = Inr g" "0 < logical_window_size cfg g"
    "\<forall>t. getAvgBool_range (pings t g) 0 (logical_window_size cfg g) = Inr (loss t g)"
    by blast
  then show ?thesis using getAvgBool_range_empty by blast
qed

theorem loop_never_averages_empty_range_witness:
  "usable first_revision \<and> [(SUCCESS, SUCCESS, OTHER 2)] \<noteq> [] \<and>
   (\<exists>g. run first_revision (setup_globals first_revision) [(SUCCESS, SUCCESS, OTHER 2)] = Inr g \<and>
      0 < logical_window_size first_revision g \<and>
      (\<exists>r. getAvgBool_range (secondAddrPings g) 0 (logical_window_size first_revision g) = Inr r))"
proof -
  have ne: "[(SUCCESS, SUCCESS, OTHER 2)] \<noteq> []" by simp
  from loop_never_averages_empty_range [OF usable_first ne] obtain g where
    g: "run first_revision (setup_globals first_revision) [(SUCCESS, SUCCESS, OTHER 2)] = Inr g"
       "0 < logical_window_size first_revision g"
       "\<forall>t. \<exists>r. getAvgBool_range (pings t g) 0 (logical_window_size first_revision g) = Inr r"
    by blast
  from g(3) [rule_format, of SecondAddr]
  have "\<exists>r. getAvgBool_range (secondAddrPings g) 0 (logical_window_size first_revision g) = Inr r"
    by simp
  then show ?thesis using usable_first ne g(1,2) by blast
qed

theorem empty_range_counterexample:
  "getAvgBool_range (replicate 13 0x00) 0 0 = Inl DivByZero"
  by (rule getAvgBool_range_empty)

lemma loop_Inr_pings:
  assumes "loop cfg g c = Inr g'"
  shows "setBool (pings t g) (currentPingNum g) (sample t c) = Inr (pings t g')"
proof -
  obtain gw a1 a2 where c: "c = (gw, a1, a2)" by (cases c) auto
  from assms obtain d1 d2 d3 g1 l1 l2 l3 where
    d: "setBool (gatewayPings g) (currentPingNum g) (\<not> doPing gw) = Inr d1"
       "setBool (firstAddrPings g) (currentPingNum g) (\<not> doPing a1) = Inr d2"
       "setBool (secondAddrPings g) (currentPingNum g) (\<not> doPing a2) = Inr d3"
    and inc: "currentPingNumInc cfg
                (g\<lparr>gatewayPings := d1, firstAddrPings := d2, secondAddrPings := d3\<rparr>) = Inr g1"
    and g': "g' = g1\<lparr>gatewayAvgLoss := l1, firstAddrLoss := l2, secondAddrLoss := l3\<rparr>"
    unfolding loop_def c by (auto split: sum.splits)
  have "gatewayPings g1 = d1 \<and> firstAddrPings g1 = d2 \<and> secondAddrPings g1 = d3"
    using inc by (auto simp: currentPingNumInc_def split: sum.splits if_splits)
  then show ?thesis
    using d g' c by (cases t) (simp_all add: sample_def)
qed

lemma run_Inr_lengths:
  assumes "run cfg g cs = Inr g'"
  shows "length (pings t g') = length (pings t g)"
  using assms
proof (induction cs arbitrary: g)
  case Nil
  then show ?case by simp
next
  case (Cons c cs)
  from Cons.prems obtain g1 where g1: "loop cfg g c = Inr g1" "run cfg g1 cs = Inr g'"
    by (auto split: sum.splits)
  have "length (pings t g1) = length (pings t g)"
    using loop_Inr_pings [OF g1(1), of t] by (rule setBool_length)
  then show ?case using Cons.IH [OF g1(2)] by simp
qed

lemma PING_BYTE_MAX_first: "PING_BYTE_MAX first_revision = 13"
  by (simp add: PING_BYTE_MAX_def first_revision_def int_cast_def)

text \<open>
  C10. Storage sizing of the first revision: \<open>PING_BYTE_MAX\<close> is 13 for the configured
  capacity of 100, every position in \<open>[0, PING_MAX_COUNT)\<close> has its byte index inside an
  array of \<open>PING_BYTE_MAX\<close> bytes, and no call of \<open>loop()\<close>, however many follow \<open>setup\<close>,
  faults: every \<open>setBool\<close> and \<open>getBool\<close> access stays inside the three arrays, which keep
  their \<open>PING_BYTE_MAX\<close> bytes. The sizing expression rounds to nearest: for a capacity of 97
  it gives 12 bytes, and position 96 is outside such an array.
\<close>

theorem ping_arrays_hold_every_position:
  "PING_BYTE_MAX first_revision = 13 \<and>
   (\<forall>pos. 0 \<le> pos \<and> pos < PING_MAX_COUNT first_revision \<longrightarrow>
      0 \<le> pos sdiv 8 \<and> pos sdiv 8 < PING_BYTE_MAX first_revision \<and>
      0 \<le> pos smod 8 \<and> pos smod 8 < 8) \<and>
   (\<forall>cs. \<exists>g. run first_revision (setup_globals first_revision) cs = Inr g \<and>
      (\<forall>t. int (length (pings t g)) = PING_BYTE_MAX first_revision)) \<and>
   PING_BYTE_MAX (first_revision\<lparr>PING_MAX_COUNT := 97\<rparr>) = 12 \<and>
   setBool (replicate 12 0x00) 96 True = Inl OutOfBounds"
proof -
  have a: "0 \<le> pos sdiv 8 \<and> pos sdiv 8 < PING_BYTE_MAX first_revision \<and>
           0 \<le> pos smod 8 \<and> pos smod 8 < 8"
    if "0 \<le> pos \<and> pos < PING_MAX_COUNT first_revision" for pos
  proof -
    have "0 \<le> pos" "pos < 100" using that by (simp_all add: first_revision_def)
    moreover from this have "0 \<le> pos div 8" "pos div 8 < 13" by linarith+
    ultimately show ?thesis by (simp add: PING_BYTE_MAX_first pos_split)
  qed
  have b: "\<exists>g. run first_revision (setup_globals first_revision) cs = Inr g \<and>
      (\<forall>t. int (length (pings t g)) = PING_BYTE_MAX first_revision)" for cs
  proof -
    from run_from_setup [OF usable_first, of cs] obtain g where
      g: "run first_revision (setup_globals first_revision) cs = Inr g" by blast
    have "length (pings t g) = length (pings t (setup_globals first_revision))" for t
      using g by (rule run_Inr_lengths)
    moreover have "int (length (pings t (setup_globals first_revision))) = 13" for t
      by (cases t) (simp_all add: setup_globals_def PING_BYTE_MAX_first)
    ultimately show ?thesis using g by (simp add: PING_BYTE_MAX_first)
  qed
  have "\<lfloor>(101::rat) / 8\<rfloor> = 12" by (rule floor_unique) simp_all
  then have c: "PING_BYTE_MAX (first_revision\<lparr>PING_MAX_COUNT := 97\<rparr>) = 12"
    by (simp add: PING_BYTE_MAX_def first_revision_def int_cast_def)
  have d: "setBool (replicate 12 0x00) 96 True = Inl OutOfBounds"
    by (simp add: setBool_def Let_def in_array_def signed_divide_int_def)
  show ?thesis using PING_BYTE_MAX_first a b c d by blast
qed

theorem ping_arrays_hold_every_position_witness:
  "(0::int) \<le> 99 \<and> 99 < PING_MAX_COUNT first_revision \<and>
   99 sdiv 8 < PING_BYTE_MAX first_revision \<and>
   (\<exists>g. run first_revision (setup_globals first_revision)
           [(SUCCESS, OTHER 2, SUCCESS), (OTHER 2, SUCCESS, SUCCESS)] = Inr g \<and>
      int (length (gatewayPings g)) = PING_BYTE_MAX first_revision)"
proof -
  have p: "(0::int) \<le> 99 \<and> 99 < PING_MAX_COUNT first_revision"
    by (simp add: first_revision_def)
  note t = ping_arrays_hold_every_position
  from t p have "99 sdiv 8 < PING_BYTE_MAX first_revision" by blast
  moreover from t obtain g where
    "run first_revision (setup_globals first_revision)
       [(SUCCESS, OTHER 2, SUCCESS), (OTHER 2, SUCCESS, SUCCESS)] = Inr g"
    "\<forall>t. int (length (pings t g)) = PING_BYTE_MAX first_revision"
    by blast
  then have "\<exists>g. run first_revision (setup_globals first_revision)
           [(SUCCESS, OTHER 2, SUCCESS), (OTHER 2, SUCCESS, SUCCESS)] = Inr g \<and>
      int (length (gatewayPings g)) = PING_BYTE_MAX first_revision"
    by (metis pings.simps(1))
  ultimately show ?thesis using p by blast
qed

section \<open>The statements of the main loop\<close>

lemma and_then_simps:
  "and_then (Inl e) f = Inl e" "and_then (Inr x) f = f x"
  by (simp_all add: and_then_def)

lemma getAvgBool_upd:
  "getAvgBool cfg (g\<lparr>gatewayAvgLoss := l\<rparr>) data = getAvgBool cfg g data"
  "getAvgBool cfg (g\<lparr>firstAddrLoss := l\<rparr>) data = getAvgBool cfg g data"
  by (simp_all add: getAvgBool_def)

lemma loop_statements:
  "loop cfg g (gw, a1, a2) =
     and_then (store_sample Gateway (\<not> doPing gw) g) (\<lambda>g.
     and_then (store_sample FirstAddr (\<not> doPing a1) g) (\<lambda>g.
     and_then (store_sample SecondAddr (\<not> doPing a2) g) (\<lambda>g.
     and_then (currentPingNumInc cfg g) (\<lambda>g.
     and_then (store_loss cfg Gateway g) (\<lambda>g.
     and_then (store_loss cfg FirstAddr g) (\<lambda>g.
     store_loss cfg SecondAddr g))))))"
proof (cases "setBool (gatewayPings g) (currentPingNum g) (\<not> doPing gw)")
  case (Inl e)
  then show ?thesis by (simp add: loop_def and_then_simps)
next
  case d1: (Inr d1)
  show ?thesis
  proof (cases "setBool (firstAddrPings g) (currentPingNum g) (\<not> doPing a1)")
    case (Inl e)
    then show ?thesis by (simp add: loop_def and_then_simps d1)
  next
    case d2: (Inr d2)
    show ?thesis
    proof (cases "setBool (secondAddrPings g) (currentPingNum g) (\<not> doPing a2)")
      case (Inl e)
      then show ?thesis by (simp add: loop_def and_then_simps d1 d2)
    next
      case d3: (Inr d3)
      define g0 where "g0 = g\<lparr>gatewayPings := d1, firstAddrPings := d2, secondAddrPings := d3\<rparr>"
      have lhs: "loop cfg g (gw, a1, a2) =
                   (case currentPingNumInc cfg g0 of
                      Inl e \<Rightarrow> Inl e
                    | Inr g1 \<Rightarrow>
                        case getAvgBool cfg g1 (gatewayPings g1) of
                          Inl e \<Rightarrow> Inl e
                        | Inr l1 \<Rightarrow>
                        case getAvgBool cfg g1 (firstAddrPings g1) of
                          Inl e \<Rightarrow> Inl e
                        | Inr l2 \<Rightarrow>
                        case getAvgBool cfg g1 (secondAddrPings g1) of
                          Inl e \<Rightarrow> Inl e
                        | Inr l3 \<Rightarrow>
                        Inr (g1\<lparr>gatewayAvgLoss := l1, firstAddrLoss := l2, secondAddrLoss := l3\<rparr>))"
        by (simp add: loop_def d1 d2 d3 g0_def)
      have rhs: "and_then (store_sample Gateway (\<not> doPing gw) g) (\<lambda>g.
                 and_then (store_sample FirstAddr (\<not> doPing a1) g) (\<lambda>g.
                 and_then (store_sample SecondAddr (\<not> doPing a2) g) F)) = F g0" for F :: "globals \<Rightarrow> fault + globals"
        by (simp add: and_then_simps d1 d2 d3 g0_def)
      show ?thesis
      proof (cases "currentPingNumInc cfg g0")
        case (Inl e)
        then show ?thesis unfolding lhs rhs by (simp add: and_then_simps)
      next
        case g1: (Inr g1)
        show ?thesis
        proof (cases "getAvgBool cfg g1 (gatewayPings g1)")
          case (Inl e)
          then show ?thesis unfolding lhs rhs by (simp add: and_then_simps g1)
        next
          case l1: (Inr l1)
          show ?thesis
          proof (cases "getAvgBool cfg g1 (firstAddrPings g1)")
            case (Inl e)
            then show ?thesis unfolding lhs rhs
              by (simp add: and_then_simps g1 l1 getAvgBool_upd)
          next
            case l2: (Inr l2)
            show ?thesis
            proof (cases "getAvgBool cfg g1 (secondAddrPings g1)")
              case (Inl e)
              then show ?thesis unfolding lhs rhs
                by (simp add: and_then_simps g1 l1 l2 getAvgBool_upd)
            next
              case l3: (Inr l3)
              then show ?thesis unfolding lhs rhs
                by (simp add: and_then_simps g1 l1 l2 getAvgBool_upd)
            qed
          qed
        qed
      qed
    qed
  qed
qed

lemma store_sample_frame:
  assumes "store_sample t v h = Inr h'"
  shows "setBool (pings t h) (currentPingNum h) v = Inr (pings t h') \<and>
         (\<forall>t'. t' \<noteq> t \<longrightarrow> pings t' h' = pings t' h) \<and>
         (\<forall>t'. loss t' h' = loss t' h) \<and>
         currentPingNum h' = currentPingNum h \<and> firstRun h' = firstRun h"
  using assms by (cases t) (auto simp: all_target split: sum.splits)

lemma store_loss_frame:
  assumes "store_loss cfg t h = Inr h'"
  shows "getAvgBool cfg h (pings t h) = Inr (loss t h') \<and>
         (\<forall>t'. pings t' h' = pings t' h) \<and>
         (\<forall>t'. t' \<noteq> t \<longrightarrow> loss t' h' = loss t' h) \<and>
         currentPingNum h' = currentPingNum h \<and> firstRun h' = firstRun h"
  using assms by (cases t) (auto simp: all_target split: sum.splits)

text \<open>
  C7. \<open>loop()\<close> of the first revision is the sequence of its statements: one \<open>setBool\<close> per
  target, the cursor increment, one cached loss per target. The \<open>setBool\<close> statement of a
  target writes the sample into that target's array and leaves the arrays of the other
  targets, all three cached percentages and the cursor as they were; the statement that
  caches a target's loss changes that target's cached percentage only.
\<close>

theorem record_touches_one_target:
  "loop cfg g (gw, a1, a2) =
     and_then (store_sample Gateway (\<not> doPing gw) g) (\<lambda>g.
     and_then (store_sample FirstAddr (\<not> doPing a1) g) (\<lambda>g.
     and_then (store_sample SecondAddr (\<not> doPing a2) g) (\<lambda>g.
     and_then (currentPingNumInc cfg g) (\<lambda>g.
     and_then (store_loss cfg Gateway g) (\<lambda>g.
     and_then (store_loss cfg FirstAddr g) (\<lambda>g.
     store_loss cfg SecondAddr g)))))) \<and>
   (\<forall>t v h h'. store_sample t v h = Inr h' \<longrightarrow>
      setBool (pings t h) (currentPingNum h) v = Inr (pings t h') \<and>
      (\<forall>t'. t' \<noteq> t \<longrightarrow> pings t' h' = pings t' h) \<and>
      (\<forall>t'. loss t' h' = loss t' h) \<and>
      currentPingNum h' = currentPingNum h \<and> firstRun h' = firstRun h) \<and>
   (\<forall>t h h'. store_loss cfg t h = Inr h' \<longrightarrow>
      getAvgBool cfg h (pings t h) = Inr (loss t h') \<and>
      (\<forall>t'. pings t' h' = pings t' h) \<and>
      (\<forall>t'. t' \<noteq> t \<longrightarrow> loss t' h' = loss t' h) \<and>
      currentPingNum h' = currentPingNum h \<and> firstRun h' = firstRun h)"
  using loop_statements [of cfg g gw a1 a2] store_sample_frame store_loss_frame [of cfg]
  by (intro conjI allI impI) blast+

theorem record_touches_one_target_witness:
  "store_sample Gateway True (setup_globals first_revision) =
     Inr ((setup_globals first_revision)\<lparr>gatewayPings := 0x01 # replicate 12 0x00\<rparr>) \<and>
   pings FirstAddr ((setup_globals first_revision)\<lparr>gatewayPings := 0x01 # replicate 12 0x00\<rparr>) =
     pings FirstAddr (setup_globals first_revision) \<and>
   loss SecondAddr ((setup_globals first_revision)\<lparr>gatewayPings := 0x01 # replicate 12 0x00\<rparr>) =
     loss SecondAddr (setup_globals first_revision)"
proof -
  let ?h = "setup_globals first_revision"
  let ?h' = "?h\<lparr>gatewayPings := 0x01 # replicate 12 0x00\<rparr>"
  have "replicate 13 (0x00::byte) = 0x00 # replicate 12 0x00" by (simp add: numeral_eq_Suc)
  then have s: "store_sample Gateway True ?h = Inr ?h'"
    by (simp add: setup_globals_def PING_BYTE_MAX_first setBool_def Let_def in_array_def
          BIT_MASK_def signed_divide_int_def signed_modulo_int_def)
  from record_touches_one_target [of first_revision ?h SUCCESS SUCCESS SUCCESS] s
  have "(\<forall>t'. t' \<noteq> Gateway \<longrightarrow> pings t' ?h' = pings t' ?h) \<and> (\<forall>t'. loss t' ?h' = loss t' ?h)"
    by blast
  then have "pings FirstAddr ?h' = pings FirstAddr ?h" "loss SecondAddr ?h' = loss SecondAddr ?h"
    by blast+
  then show ?thesis using s by blast
qed

section \<open>Samples recorded by the evolved revision\<close>

lemma sample_is_loss: "(\<not> doPing_evolved p) = (outcome_of p \<noteq> Success)"
  by (cases p rule: outcome_of.cases) simp_all

text \<open>
  C5. In a cycle of the evolved revision whose cursor is inside the buffer, \<open>loop()\<close> does
  not fault and hands BoolBits exactly one sample per target, at the cursor: the sample is
  true (a loss) if and only if the probe of that target did not end with \<open>Success\<close>. In
  particular a probe whose request could not be sent (\<open>SendFailed\<close>) is recorded as a loss.
\<close>

theorem probe_recorded_as_loss_unless_success:
  assumes "0 \<le> currentPingNum g" and "currentPingNum g < PING_MAX_COUNT cfg"
    and "PING_MAX_COUNT cfg \<le> INT_MAX"
  shows "\<exists>calls g'. loop_evolved cfg g probes = Inr (calls, g') \<and>
           (\<forall>t. SetBool t (currentPingNum g) (outcome_of (probe_of t probes) \<noteq> Success)
                  \<in> set calls) \<and>
           (\<forall>t pos v. SetBool t pos v \<in> set calls \<longrightarrow>
                  pos = currentPingNum g \<and> v = (outcome_of (probe_of t probes) \<noteq> Success)) \<and>
           (\<forall>t. outcome_of (probe_of t probes) = SendFailed \<longrightarrow>
                  SetBool t (currentPingNum g) True \<in> set calls)"
proof -
  obtain gw a1 a2 where p: "probes = (gw, a1, a2)" by (cases probes) auto
  from currentPingNumInc_eq [OF assms] obtain g1 where g1: "currentPingNumInc cfg g = Inr g1"
    by blast
  let ?calls = "[SetBool Gateway (currentPingNum g) (\<not> doPing_evolved gw),
                 SetBool FirstAddr (currentPingNum g) (\<not> doPing_evolved a1),
                 SetBool SecondAddr (currentPingNum g) (\<not> doPing_evolved a2),
                 getFloatAvgBool cfg g1 Gateway,
                 getFloatAvgBool cfg g1 FirstAddr,
                 getFloatAvgBool cfg g1 SecondAddr]"
  have r: "loop_evolved cfg g probes = Inr (?calls, g1)"
    by (simp add: loop_evolved_def p g1)
  have a: "SetBool t (currentPingNum g) (outcome_of (probe_of t probes) \<noteq> Success) \<in> set ?calls"
    for t
    by (cases t) (simp_all add: p sample_is_loss)
  have b: "pos = currentPingNum g \<and> v = (outcome_of (probe_of t probes) \<noteq> Success)"
    if "SetBool t pos v \<in> set ?calls" for t pos v
    using that by (auto simp: p sample_is_loss getFloatAvgBool_def split: if_splits)
  have c: "SetBool t (currentPingNum g) True \<in> set ?calls"
    if "outcome_of (probe_of t probes) = SendFailed" for t
    using a [of t] that by simp
  show ?thesis using r a b c by blast
qed

theorem probe_recorded_as_loss_unless_success_witness:
  "0 \<le> currentPingNum \<lparr>currentPingNum = 5, firstRun = True\<rparr> \<and>
   currentPingNum \<lparr>currentPingNum = 5, firstRun = True\<rparr> < PING_MAX_COUNT evolved_revision \<and>
   PING_MAX_COUNT evolved_revision \<le> INT_MAX \<and>
   outcome_of (AsyncNotSent (OTHER 1)) = SendFailed \<and>
   (\<exists>calls g'. loop_evolved evolved_revision \<lparr>currentPingNum = 5, firstRun = True\<rparr>
                  (AsyncNotSent (OTHER 1), Blocking SUCCESS, AsyncSent 3 (OTHER 2)) = Inr (calls, g') \<and>
      SetBool Gateway 5 True \<in> set calls \<and>
      SetBool FirstAddr 5 False \<in> set calls \<and>
      SetBool SecondAddr 5 True \<in> set calls)"
proof -
  let ?g = "\<lparr>currentPingNum = 5, firstRun = True\<rparr>"
  let ?p = "(AsyncNotSent (OTHER 1), Blocking SUCCESS, AsyncSent 3 (OTHER 2))"
  have h: "0 \<le> currentPingNum ?g" "currentPingNum ?g < PING_MAX_COUNT evolved_revision"
    "PING_MAX_COUNT evolved_revision \<le> INT_MAX"
    by (simp_all add: evolved_revision_def INT_MAX_def)
  from probe_recorded_as_loss_unless_success [OF h, of ?p] obtain calls g' where
    c: "loop_evolved evolved_revision ?g ?p = Inr (calls, g')"
       "\<forall>t. SetBool t (currentPingNum ?g) (outcome_of (probe_of t ?p) \<noteq> Success) \<in> set calls"
    by blast
  have "SetBool Gateway 5 True \<in> set calls" using c(2) [rule_format, of Gateway] by simp
  moreover have "SetBool FirstAddr 5 False \<in> set calls"
    using c(2) [rule_format, of FirstAddr] by simp
  moreover have "SetBool SecondAddr 5 True \<in> set calls"
    using c(2) [rule_format, of SecondAddr] by simp
  ultimately show ?thesis using h c(1) by auto
qed

section \<open>The length of a cycle\<close>

lemma stime_round_trip: "word_of_int (loop_start t0) = millis t0"
  by (simp add: loop_start_def)

lemma elapsed_word:
  assumes "t0 \<le> t"
  shows "unat (millis t - millis t0) = (t - t0) mod 2 ^ 32"
proof -
  have "millis t - millis t0 = (of_nat (t - t0) :: 32 word)"
    using assms by (simp add: millis_def)
  then show ?thesis by (simp add: unat_of_nat)
qed

lemma interval_word:
  assumes "0 \<le> PROCESSING_LOOP_INTERVAL cfg" "PROCESSING_LOOP_INTERVAL cfg \<le> INT_MAX"
  shows "unat (word_of_int (PROCESSING_LOOP_INTERVAL cfg) :: 32 word) =
           nat (PROCESSING_LOOP_INTERVAL cfg)"
proof -
  have "(word_of_int (PROCESSING_LOOP_INTERVAL cfg) :: 32 word) =
          of_nat (nat (PROCESSING_LOOP_INTERVAL cfg))"
    using assms(1) by simp
  moreover have "nat (PROCESSING_LOOP_INTERVAL cfg) < 2 ^ 32"
    using assms by (simp add: INT_MAX_def nat_less_iff)
  ultimately show ?thesis by (simp add: unat_of_nat)
qed

lemma idle_wait_Some:
  assumes "0 \<le> PROCESSING_LOOP_INTERVAL cfg" "PROCESSING_LOOP_INTERVAL cfg \<le> INT_MAX"
    and "\<forall>u\<in>set ts. t0 \<le> u" and "idle_wait cfg (loop_start t0) ts = Some t"
  shows "t \<in> set ts \<and> t0 + nat (PROCESSING_LOOP_INTERVAL cfg) \<le> t"
  using assms(3,4)
proof (induction ts)
  case Nil
  then show ?case by simp
next
  case (Cons u ts)
  show ?case
  proof (cases "millis u - word_of_int (loop_start t0) < word_of_int (PROCESSING_LOOP_INTERVAL cfg)")
    case True
    then have "idle_wait cfg (loop_start t0) ts = Some t" using Cons.prems(2) by simp
    then show ?thesis using Cons.IH Cons.prems(1) by simp
  next
    case False
    then have tu: "t = u" using Cons.prems(2) by simp
    have le: "t0 \<le> u" using Cons.prems(1) by simp
    have "\<not> unat (millis u - millis t0) < nat (PROCESSING_LOOP_INTERVAL cfg)"
      using False interval_word [OF assms(1,2)]
      by (simp add: stime_round_trip word_less_nat_alt)
    then have "nat (PROCESSING_LOOP_INTERVAL cfg) \<le> (u - t0) mod 2 ^ 32"
      using elapsed_word [OF le] by simp
    moreover have "(u - t0) mod 2 ^ 32 \<le> u - t0" by simp
    ultimately have "t0 + nat (PROCESSING_LOOP_INTERVAL cfg) \<le> u" using le by linarith
    then show ?thesis using tu by simp
  qed
qed

lemma idle_wait_ends:
  assumes "0 \<le> PROCESSING_LOOP_INTERVAL cfg" "PROCESSING_LOOP_INTERVAL cfg \<le> INT_MAX"
    and "\<exists>u\<in>set ts. t0 + nat (PROCESSING_LOOP_INTERVAL cfg) \<le> u \<and> u < t0 + 2 ^ 32"
  shows "\<exists>t. idle_wait cfg (loop_start t0) ts = Some t"
  using assms(3)
proof (induction ts)
  case Nil
  then show ?case by simp
next
  case (Cons u ts)
  show ?case
  proof (cases "millis u - word_of_int (loop_start t0) < word_of_int (PROCESSING_LOOP_INTERVAL cfg)")
    case False
    then show ?thesis by simp
  next
    case True
    have "\<not> (t0 + nat (PROCESSING_LOOP_INTERVAL cfg) \<le> u \<and> u < t0 + 2 ^ 32)"
    proof
      assume a: "t0 + nat (PROCESSING_LOOP_INTERVAL cfg) \<le> u \<and> u < t0 + 2 ^ 32"
      then have le: "t0 \<le> u" by simp
      have "u - t0 < 2 ^ 32" using a by linarith
      then have "(u - t0) mod 2 ^ 32 = u - t0" by (rule mod_less)
      then have "unat (millis u - millis t0) = u - t0" using elapsed_word [OF le] by simp
      moreover have "unat (millis u - millis t0) < nat (PROCESSING_LOOP_INTERVAL cfg)"
        using True interval_word [OF assms(1,2)]
        by (simp add: stime_round_trip word_less_nat_alt)
      ultimately show False using a by linarith
    qed
    then have "\<exists>u\<in>set ts. t0 + nat (PROCESSING_LOOP_INTERVAL cfg) \<le> u \<and> u < t0 + 2 ^ 32"
      using Cons.prems by auto
    then show ?thesis using Cons.IH True by simp
  qed
qed

lemma interval_evolved: "PROCESSING_LOOP_INTERVAL evolved_revision = 3000"
  by (simp add: PROCESSING_LOOP_INTERVAL_def evolved_revision_def)

text \<open>
  C6. The fixed cycle duration of the evolved revision is per-probe timeout times target
  count plus the processing margin, \<open>950 * 3 + 150 = 3000\<close> ms. \<open>loop()\<close> stores the clock in
  \<open>stime\<close> when it starts and returns only when a reading of \<open>millis()\<close> in its final wait
  differs from \<open>stime\<close> by at least that much: with a clock that never runs backwards, if
  the wait of a cycle started at \<open>t0\<close> ends at time \<open>t\<close>, then \<open>t0 + 3000 \<le> t\<close>, however
  quickly the pings returned and also across the wrap-around of the 32-bit millisecond
  counter. The wait does end once a reading is taken 3000 ms or more (and less than \<open>2^32\<close>
  ms) after the start.
\<close>

theorem cycle_lasts_fixed_duration:
  "PROCESSING_LOOP_INTERVAL evolved_revision = 950 * 3 + 150 \<and>
   PROCESSING_LOOP_INTERVAL evolved_revision = 3000 \<and>
   ((\<forall>u\<in>set ts. t0 \<le> u) \<and> idle_wait evolved_revision (loop_start t0) ts = Some t
      \<longrightarrow> t \<in> set ts \<and> t0 + 3000 \<le> t) \<and>
   ((\<exists>u\<in>set ts. t0 + 3000 \<le> u \<and> u < t0 + 2 ^ 32)
      \<longrightarrow> (\<exists>t'. idle_wait evolved_revision (loop_start t0) ts = Some t'))"
proof -
  have i: "0 \<le> PROCESSING_LOOP_INTERVAL evolved_revision"
       "PROCESSING_LOOP_INTERVAL evolved_revision \<le> INT_MAX"
    by (simp_all add: interval_evolved INT_MAX_def)
  have a: "t \<in> set ts \<and> t0 + 3000 \<le> t"
    if "(\<forall>u\<in>set ts. t0 \<le> u) \<and> idle_wait evolved_revision (loop_start t0) ts = Some t"
    using idle_wait_Some [OF i, of ts t0 t] that by (simp add: interval_evolved)
  have b: "\<exists>t'. idle_wait evolved_revision (loop_start t0) ts = Some t'"
    if "\<exists>u\<in>set ts. t0 + 3000 \<le> u \<and> u < t0 + 2 ^ 32"
    using idle_wait_ends [OF i, of ts t0] that by (simp add: interval_evolved)
  show ?thesis using a b by (simp add: interval_evolved)
qed

theorem cycle_lasts_fixed_duration_witness:
  "idle_wait evolved_revision (loop_start 4294966296)
     [4294966300, 4294967400, 4294969295, 4294969296, 4294969300] = Some 4294969296 \<and>
   (4294969296 \<in> set [4294966300, 4294967400, 4294969295, 4294969296, 4294969300 :: nat] \<and>
    (4294966296 :: nat) + 3000 \<le> 4294969296)"
proof -
  let ?ts = "[4294966300, 4294967400, 4294969295, 4294969296, 4294969300 :: nat]"
  have e: "idle_wait evolved_revision (loop_start 4294966296) ?ts = Some 4294969296"
    by (simp add: loop_start_def millis_def interval_evolved)
  have m: "\<forall>u\<in>set ?ts. 4294966296 \<le> u" by simp
  note t = cycle_lasts_fixed_duration [of ?ts 4294966296 4294969296]
  have r: "4294969296 \<in> set ?ts \<and> (4294966296 :: nat) + 3000 \<le> 4294969296"
    by (rule t [THEN conjunct2, THEN conjunct2, THEN conjunct1, rule_format, OF conjI [OF m e]])
  show ?thesis by (rule conjI [OF e r])
qed

section \<open>The library calls of the evolved revision\<close>

lemma set_positions_append:
  "set_positions t (xs @ ys) = set_positions t xs \<union> set_positions t ys"
  by (induction t xs rule: set_positions.induct) auto

lemma getFloatAvgBool_window:
  "getFloatAvgBool cfg g t = GetFloatAvgBool t 0 (logical_window_size cfg g)"
  by (simp add: getFloatAvgBool_def logical_window_size_def)

lemma loop_evolved_block:
  assumes "0 \<le> currentPingNum g" "currentPingNum g < PING_MAX_COUNT cfg"
    "PING_MAX_COUNT cfg \<le> INT_MAX"
  shows "\<exists>g1 v1 v2 v3.
           loop_evolved cfg g p =
             Inr ([SetBool Gateway (currentPingNum g) v1, SetBool FirstAddr (currentPingNum g) v2,
                   SetBool SecondAddr (currentPingNum g) v3,
                   GetFloatAvgBool Gateway 0 (logical_window_size cfg g1),
                   GetFloatAvgBool FirstAddr 0 (logical_window_size cfg g1),
                   GetFloatAvgBool SecondAddr 0 (logical_window_size cfg g1)], g1) \<and>
           0 \<le> currentPingNum g1 \<and> currentPingNum g1 < PING_MAX_COUNT cfg \<and>
           0 < logical_window_size cfg g1 \<and>
           {0..<logical_window_size cfg g1} =
             insert (currentPingNum g) {0..<logical_window_size cfg g}"
proof -
  obtain gw a1 a2 where p: "p = (gw, a1, a2)" by (cases p) auto
  let ?cap = "PING_MAX_COUNT cfg" and ?cur = "currentPingNum g"
  define g1 where "g1 = (if ?cur + 1 = ?cap
                then g\<lparr>currentPingNum := 0, firstRun := False\<rparr>
                else g\<lparr>currentPingNum := ?cur + 1\<rparr>)"
  have inc: "currentPingNumInc cfg g = Inr g1"
    unfolding g1_def using assms by (rule currentPingNumInc_eq)
  have r: "loop_evolved cfg g p =
             Inr ([SetBool Gateway ?cur (\<not> doPing_evolved gw),
                   SetBool FirstAddr ?cur (\<not> doPing_evolved a1),
                   SetBool SecondAddr ?cur (\<not> doPing_evolved a2),
                   GetFloatAvgBool Gateway 0 (logical_window_size cfg g1),
                   GetFloatAvgBool FirstAddr 0 (logical_window_size cfg g1),
                   GetFloatAvgBool SecondAddr 0 (logical_window_size cfg g1)], g1)"
    by (simp add: loop_evolved_def p inc getFloatAvgBool_window)
  have c: "0 \<le> currentPingNum g1" "currentPingNum g1 < ?cap"
    using assms by (auto simp: g1_def)
  have w: "0 < logical_window_size cfg g1"
    using assms by (auto simp: g1_def logical_window_size_def)
  have e: "{0..<logical_window_size cfg g1} = insert ?cur {0..<logical_window_size cfg g}"
    using assms by (auto simp: g1_def logical_window_size_def)
  show ?thesis using r c w e by blast
qed

lemma block_positions:
  "set_positions t
     (take i [SetBool Gateway c v1, SetBool FirstAddr c v2, SetBool SecondAddr c v3,
              GetFloatAvgBool Gateway s1 e1, GetFloatAvgBool FirstAddr s2 e2,
              GetFloatAvgBool SecondAddr s3 e3]) = {c}"
  if "3 \<le> i"
proof -
  from that consider "i = 3" | "i = 4" | "i = 5" | "6 \<le> i" by linarith
  then show ?thesis
    by cases (cases t; simp add: numeral_eq_Suc)+
qed

lemma block_average:
  assumes "i < 6"
    and "[SetBool Gateway c v1, SetBool FirstAddr c v2, SetBool SecondAddr c v3,
          GetFloatAvgBool Gateway 0 w, GetFloatAvgBool FirstAddr 0 w,
          GetFloatAvgBool SecondAddr 0 w] ! i = GetFloatAvgBool t s e"
  shows "3 \<le> i \<and> s = 0 \<and> e = w"
proof -
  from assms(1) consider "i = 0" | "i = 1" | "i = 2" | "i = 3" | "i = 4" | "i = 5" by linarith
  then show ?thesis using assms(2) by cases (simp_all add: numeral_eq_Suc)
qed

lemma run_evolved_calls:
  assumes cap: "PING_MAX_COUNT cfg \<le> INT_MAX"
    and cur: "0 \<le> currentPingNum g" "currentPingNum g < PING_MAX_COUNT cfg"
    and hist: "\<forall>t. set_positions t h = {0..<logical_window_size cfg g}"
  shows "\<exists>calls g'. run_evolved cfg g ps = Inr (calls, g') \<and>
           length calls = 6 * length ps \<and>
           (\<forall>t. set_positions t (h @ calls) = {0..<logical_window_size cfg g'}) \<and>
           (\<forall>i<length calls. \<forall>t s e. calls ! i = GetFloatAvgBool t s e \<longrightarrow>
                s = 0 \<and> 0 < e \<and> {0..<e} = set_positions t (h @ take i calls)) \<and>
           (ps \<noteq> [] \<longrightarrow>
              drop (length calls - 3) calls =
                [GetFloatAvgBool Gateway 0 (logical_window_size cfg g'),
                 GetFloatAvgBool FirstAddr 0 (logical_window_size cfg g'),
                 GetFloatAvgBool SecondAddr 0 (logical_window_size cfg g')])"
  using cur hist
proof (induction ps arbitrary: g h)
  case Nil
  then show ?case by simp
next
  case (Cons p ps)
  let ?c = "currentPingNum g"
  from loop_evolved_block [OF Cons.prems(1,2) cap, of p] obtain g1 v1 v2 v3 where
    b: "loop_evolved cfg g p =
          Inr ([SetBool Gateway ?c v1, SetBool FirstAddr ?c v2, SetBool SecondAddr ?c v3,
                GetFloatAvgBool Gateway 0 (logical_window_size cfg g1),
                GetFloatAvgBool FirstAddr 0 (logical_window_size cfg g1),
                GetFloatAvgBool SecondAddr 0 (logical_window_size cfg g1)], g1)"
    and c1: "0 \<le> currentPingNum g1" "currentPingNum g1 < PING_MAX_COUNT cfg"
    and w1: "0 < logical_window_size cfg g1"
    and e1: "{0..<logical_window_size cfg g1} = insert ?c {0..<logical_window_size cfg g}"
    by blast
  define blk where "blk = [SetBool Gateway ?c v1, SetBool FirstAddr ?c v2, SetBool SecondAddr ?c v3,
                GetFloatAvgBool Gateway 0 (logical_window_size cfg g1),
                GetFloatAvgBool FirstAddr 0 (logical_window_size cfg g1),
                GetFloatAvgBool SecondAddr 0 (logical_window_size cfg g1)]"
  have lb: "length blk = 6" by (simp add: blk_def)
  have pos_take: "set_positions t (h @ take i blk) = {0..<logical_window_size cfg g1}"
    if "3 \<le> i" for t i
    using block_positions [OF that, of t ?c v1 v2 v3] Cons.prems(3) e1
    by (simp add: set_positions_append blk_def)
  have hist1: "\<forall>t. set_positions t (h @ blk) = {0..<logical_window_size cfg g1}"
    using pos_take [of 6] lb by simp
  from Cons.IH [OF c1 hist1] obtain rest g' where
    r: "run_evolved cfg g1 ps = Inr (rest, g')" "length rest = 6 * length ps"
       "\<forall>t. set_positions t ((h @ blk) @ rest) = {0..<logical_window_size cfg g'}"
       "\<forall>i<length rest. \<forall>t s e. rest ! i = GetFloatAvgBool t s e \<longrightarrow>
            s = 0 \<and> 0 < e \<and> {0..<e} = set_positions t ((h @ blk) @ take i rest)"
       "ps \<noteq> [] \<longrightarrow>
          drop (length rest - 3) rest =
            [GetFloatAvgBool Gateway 0 (logical_window_size cfg g'),
             GetFloatAvgBool FirstAddr 0 (logical_window_size cfg g'),
             GetFloatAvgBool SecondAddr 0 (logical_window_size cfg g')]"
    by blast
  have A: "run_evolved cfg g (p # ps) = Inr (blk @ rest, g')"
    using b r(1) by (simp add: blk_def)
  have B: "length (blk @ rest) = 6 * length (p # ps)" using lb r(2) by simp
  have C: "\<forall>t. set_positions t (h @ blk @ rest) = {0..<logical_window_size cfg g'}"
    using r(3) by simp
  have D: "s = 0 \<and> 0 < e \<and> {0..<e} = set_positions t (h @ take i (blk @ rest))"
    if i: "i < length (blk @ rest)" and av: "(blk @ rest) ! i = GetFloatAvgBool t s e" for i t s e
  proof (cases "i < 6")
    case True
    then have "blk ! i = GetFloatAvgBool t s e" using av lb by (simp add: nth_append)
    then have x: "3 \<le> i \<and> s = 0 \<and> e = logical_window_size cfg g1"
      using block_average [OF True] by (simp add: blk_def)
    have "take i (blk @ rest) = take i blk" using True lb by simp
    then have "set_positions t (h @ take i (blk @ rest)) = {0..<logical_window_size cfg g1}"
      using x pos_take [of i t] by (simp only:)
    then show ?thesis using x w1 by simp
  next
    case False
    then have j: "i - 6 < length rest" "rest ! (i - 6) = GetFloatAvgBool t s e"
      using i av lb by (simp_all add: nth_append)
    have "take i (blk @ rest) = blk @ take (i - 6) rest" using False lb by simp
    then have "h @ take i (blk @ rest) = (h @ blk) @ take (i - 6) rest" by simp
    then show ?thesis using r(4) j by (simp only:)
  qed
  have E: "drop (length (blk @ rest) - 3) (blk @ rest) =
            [GetFloatAvgBool Gateway 0 (logical_window_size cfg g'),
             GetFloatAvgBool FirstAddr 0 (logical_window_size cfg g'),
             GetFloatAvgBool SecondAddr 0 (logical_window_size cfg g')]"
  proof (cases "ps = []")
    case True
    then have "rest = []" "g' = g1" using r(1) by simp_all
    then show ?thesis by (simp add: blk_def)
  next
    case False
    then have "6 \<le> length rest" using r(2) by (cases ps) simp_all
    then have "drop (length (blk @ rest) - 3) (blk @ rest) = drop (length rest - 3) rest"
      using lb by simp
    then show ?thesis using r(5) False by simp
  qed
  show ?case
  proof (intro exI conjI)
    show "run_evolved cfg g (p # ps) = Inr (blk @ rest, g')" by (rule A)
    show "length (blk @ rest) = 6 * length (p # ps)" by (rule B)
    show "\<forall>t. set_positions t (h @ blk @ rest) = {0..<logical_window_size cfg g'}" by (rule C)
    show "\<forall>i<length (blk @ rest). \<forall>t s e. (blk @ rest) ! i = GetFloatAvgBool t s e \<longrightarrow>
            s = 0 \<and> 0 < e \<and> {0..<e} = set_positions t (h @ take i (blk @ rest))"
      using D by blast
    show "p # ps \<noteq> [] \<longrightarrow>
            drop (length (blk @ rest) - 3) (blk @ rest) =
              [GetFloatAvgBool Gateway 0 (logical_window_size cfg g'),
               GetFloatAvgBool FirstAddr 0 (logical_window_size cfg g'),
               GetFloatAvgBool SecondAddr 0 (logical_window_size cfg g')]"
      using E by blast
  qed
qed

section \<open>The main loop keeps the logical window of the specification\<close>

lemma loop_holds_window:
  assumes cap: "PING_MAX_COUNT cfg * 100 \<le> INT_MAX"
    and sz: "sized cfg g"
    and inv: "ring_inv (nat (PING_MAX_COUNT cfg)) r"
    and h: "holds_window g0 g t r"
  shows "\<exists>g'. loop cfg g c = Inr g' \<and> sized cfg g' \<and>
           ring_inv (nat (PING_MAX_COUNT cfg)) (ring_set (nat (PING_MAX_COUNT cfg)) r (sample t c)) \<and>
           holds_window g0 g' t (ring_set (nat (PING_MAX_COUNT cfg)) r (sample t c))"
proof -
  let ?capi = "PING_MAX_COUNT cfg" and ?cap = "nat (PING_MAX_COUNT cfg)"
  let ?cur = "write_cursor r" and ?v = "sample t c"
  let ?r' = "ring_set ?cap r ?v"
  have curlt: "?cur < ?cap" using inv by (simp add: ring_inv_def)
  then have cap0: "0 < ?capi" by simp
  have cg: "currentPingNum g = int ?cur" and fg: "firstRun g = (\<not> has_wrapped r)"
    and lg: "length (pings t g) = length (pings t g0)"
    and inw: "\<forall>p<length (window r). getBool (pings t g) (int p) = Inr (window r ! p)"
    and outw: "\<forall>p. int (length (window r)) \<le> p \<and> p < 8 * int (length (pings t g0))
                 \<longrightarrow> getBool (pings t g) p = getBool (pings t g0) p"
    using h by (simp_all add: holds_window_def)
  have r0: "0 \<le> currentPingNum g" and r1: "currentPingNum g < ?capi"
    using cg curlt by simp_all
  from loop_step [OF cap r0 r1 sz, of c] obtain g' where
    g': "loop cfg g c = Inr g'"
        "\<forall>t. setBool (pings t g) (currentPingNum g) (sample t c) = Inr (pings t g')"
        "currentPingNum g' = (currentPingNum g + 1) mod ?capi"
        "firstRun g' = (firstRun g \<and> currentPingNum g + 1 < ?capi)"
        "sized cfg g'"
    by blast
  have s: "setBool (pings t g) (int ?cur) ?v = Inr (pings t g')" using g'(2) cg by simp
  have b: "int ?cur < 8 * int (length (pings t g))" using sz r1 cg sized_bound by metis
  have lg': "length (pings t g') = length (pings t g)" using s by (rule setBool_length)
  have same: "getBool (pings t g') (int ?cur) = Inr ?v"
    using getBool_setBool_same [OF _ b s] by simp
  have other: "getBool (pings t g') q = getBool (pings t g) q"
    if "0 \<le> q" "q < 8 * int (length (pings t g))" "q \<noteq> int ?cur" for q
    using getBool_setBool_other [OF _ b s that] by simp
  have capb: "?capi \<le> 8 * int (length (pings t g))" using sz by (simp add: sized_def)
  have lenw: "length (window r) = (if has_wrapped r then ?cap else ?cur)"
    using inv by (simp add: ring_inv_def)
  show ?thesis
  proof (cases "?cur + 1 = ?cap")
    case wrap: True
    have r': "?r' = \<lparr>window = (if has_wrapped r then (window r)[?cur := ?v] else window r @ [?v]),
                      write_cursor = 0, has_wrapped = True\<rparr>"
      using wrap by (simp add: ring_set_def Let_def)
    have lw': "length (window ?r') = ?cap" using lenw wrap by (auto simp: r')
    have inv': "ring_inv ?cap ?r'" using lw' curlt by (simp add: ring_inv_def r')
    have "int ?cur + 1 = ?capi" using wrap cap0 by linarith
    then have c': "currentPingNum g' = 0" "\<not> firstRun g'"
      using g'(3,4) cg by simp_all
    have in': "getBool (pings t g') (int p) = Inr (window ?r' ! p)" if p: "p < length (window ?r')" for p
    proof (cases "p = ?cur")
      case True
      then show ?thesis using same lenw curlt by (auto simp: r' nth_append)
    next
      case False
      have pc: "p < ?cap" using p lw' by simp
      then have "int p < 8 * int (length (pings t g))" using capb by linarith
      then have "getBool (pings t g') (int p) = getBool (pings t g) (int p)"
        using other [of "int p"] False by simp
      moreover have "p < length (window r)" using pc False wrap lenw by (auto split: if_splits)
      ultimately show ?thesis using inw False by (auto simp: r' nth_append)
    qed
    have out': "getBool (pings t g') p = getBool (pings t g0) p"
      if p: "int (length (window ?r')) \<le> p" "p < 8 * int (length (pings t g0))" for p
    proof -
      have "int ?cap \<le> p" using p(1) lw' by simp
      then have ne: "p \<noteq> int ?cur" "0 \<le> p" "int (length (window r)) \<le> p"
        using curlt lenw by (auto split: if_splits)
      then have "getBool (pings t g') p = getBool (pings t g) p"
        using other [of p] p(2) lg by simp
      then show ?thesis using outw ne(3) p(2) by simp
    qed
    have "holds_window g0 g' t ?r'"
      unfolding holds_window_def using c' lg lg' in' out' by (simp add: r')
    then show ?thesis using g'(1,5) inv' by blast
  next
    case nowrap: False
    have r': "?r' = \<lparr>window = (if has_wrapped r then (window r)[?cur := ?v] else window r @ [?v]),
                      write_cursor = ?cur + 1, has_wrapped = has_wrapped r\<rparr>"
      using nowrap by (simp add: ring_set_def Let_def)
    have lt: "?cur + 1 < ?cap" using curlt nowrap by simp
    have lw': "length (window ?r') = (if has_wrapped r then ?cap else ?cur + 1)"
      using lenw by (auto simp: r')
    have inv': "ring_inv ?cap ?r'" using lw' lt by (simp add: ring_inv_def r')
    have "int ?cur + 1 < ?capi" using lt by linarith
    then have c': "currentPingNum g' = int (?cur + 1)" "firstRun g' = (\<not> has_wrapped r)"
      using g'(3,4) cg fg by simp_all
    have in': "getBool (pings t g') (int p) = Inr (window ?r' ! p)" if p: "p < length (window ?r')" for p
    proof (cases "p = ?cur")
      case True
      then show ?thesis using same lenw curlt by (auto simp: r' nth_append)
    next
      case False
      have pc: "p < ?cap" using p lw' lt by (auto split: if_splits)
      then have "int p < 8 * int (length (pings t g))" using capb by linarith
      then have "getBool (pings t g') (int p) = getBool (pings t g) (int p)"
        using other [of "int p"] False by simp
      moreover have "p < length (window r)" using p lw' False lenw by (auto split: if_splits)
      ultimately show ?thesis using inw False by (auto simp: r' nth_append)
    qed
    have out': "getBool (pings t g') p = getBool (pings t g0) p"
      if p: "int (length (window ?r')) \<le> p" "p < 8 * int (length (pings t g0))" for p
    proof -
      have ne: "p \<noteq> int ?cur" "0 \<le> p" "int (length (window r)) \<le> p"
        using p(1) lw' curlt lenw by (auto split: if_splits)
      then have "getBool (pings t g') p = getBool (pings t g) p"
        using other [of p] p(2) lg by simp
      then show ?thesis using outw ne(3) p(2) by simp
    qed
    have "holds_window g0 g' t ?r'"
      unfolding holds_window_def using c' lg lg' in' out' by (simp add: r')
    then show ?thesis using g'(1,5) inv' by blast
  qed
qed

lemma run_holds_window:
  assumes cap: "PING_MAX_COUNT cfg * 100 \<le> INT_MAX"
    and sz: "sized cfg g"
    and inv: "ring_inv (nat (PING_MAX_COUNT cfg)) r"
    and h: "holds_window g0 g t r"
  shows "\<exists>g'. run cfg g cs = Inr g' \<and>
           ring_inv (nat (PING_MAX_COUNT cfg))
             (foldl (ring_set (nat (PING_MAX_COUNT cfg))) r (map (sample t) cs)) \<and>
           holds_window g0 g' t
             (foldl (ring_set (nat (PING_MAX_COUNT cfg))) r (map (sample t) cs))"
  using sz inv h
proof (induction cs arbitrary: g r)
  case Nil
  then show ?case by simp
next
  case (Cons c cs)
  from loop_holds_window [OF cap Cons.prems, of c] obtain g1 where
    g1: "loop cfg g c = Inr g1" "sized cfg g1"
        "ring_inv (nat (PING_MAX_COUNT cfg)) (ring_set (nat (PING_MAX_COUNT cfg)) r (sample t c))"
        "holds_window g0 g1 t (ring_set (nat (PING_MAX_COUNT cfg)) r (sample t c))"
    by blast
  from Cons.IH [OF g1(2-4)] show ?case by (simp add: g1(1))
qed

lemma run_refines_ring:
  assumes u: "usable cfg" and ne: "cs \<noteq> []"
    and init: "currentPingNum g0 = 0" "firstRun g0"
      "\<forall>t. int (length (pings t g0)) = PING_BYTE_MAX cfg"
  shows "\<exists>g. run cfg g0 cs = Inr g \<and>
           (\<forall>t. logical_window_size cfg g =
                  int (length (window (ring_record (nat (PING_MAX_COUNT cfg)) (map (sample t) cs)))) \<and>
                0 < length (window (ring_record (nat (PING_MAX_COUNT cfg)) (map (sample t) cs))) \<and>
                (\<forall>p<length (window (ring_record (nat (PING_MAX_COUNT cfg)) (map (sample t) cs))).
                   getBool (pings t g) (int p) =
                     Inr (window (ring_record (nat (PING_MAX_COUNT cfg)) (map (sample t) cs)) ! p)) \<and>
                (\<forall>p. int (length (window (ring_record (nat (PING_MAX_COUNT cfg)) (map (sample t) cs)))) \<le> p \<and>
                     p < 8 * int (length (pings t g0))
                     \<longrightarrow> getBool (pings t g) p = getBool (pings t g0) p) \<and>
                getAvgBool cfg g (pings t g) = Inr (loss t g) \<and>
                loss t g =
                  (count_true (window (ring_record (nat (PING_MAX_COUNT cfg)) (map (sample t) cs))) * 100)
                    div int (length (window (ring_record (nat (PING_MAX_COUNT cfg)) (map (sample t) cs)))))"
proof -
  let ?capi = "PING_MAX_COUNT cfg" and ?cap = "nat (PING_MAX_COUNT cfg)"
  have cap0: "0 < ?capi" and c100: "?capi * 100 \<le> INT_MAX" and fit: "?capi \<le> 8 * PING_BYTE_MAX cfg"
    using u by (simp_all add: usable_def)
  have sz: "sized cfg g0" using init(3) fit by (simp add: sized_def)
  have r0: "0 \<le> currentPingNum g0" "currentPingNum g0 < ?capi" using init(1) cap0 by simp_all
  from run_invariant [OF c100 r0 sz, of cs] ne obtain g where
    g: "run cfg g0 cs = Inr g" "0 < logical_window_size cfg g"
       "\<forall>t. getAvgBool_range (pings t g) 0 (logical_window_size cfg g) = Inr (loss t g)"
    by blast
  have inv0: "ring_inv ?cap ring_new" using cap0 by (simp add: ring_inv_def ring_new_def)
  have tgt: "logical_window_size cfg g =
                  int (length (window (ring_record ?cap (map (sample t) cs)))) \<and>
                0 < length (window (ring_record ?cap (map (sample t) cs))) \<and>
                (\<forall>p<length (window (ring_record ?cap (map (sample t) cs))).
                   getBool (pings t g) (int p) =
                     Inr (window (ring_record ?cap (map (sample t) cs)) ! p)) \<and>
                (\<forall>p. int (length (window (ring_record ?cap (map (sample t) cs)))) \<le> p \<and>
                     p < 8 * int (length (pings t g0))
                     \<longrightarrow> getBool (pings t g) p = getBool (pings t g0) p) \<and>
                getAvgBool cfg g (pings t g) = Inr (loss t g) \<and>
                loss t g =
                  (count_true (window (ring_record ?cap (map (sample t) cs))) * 100)
                    div int (length (window (ring_record ?cap (map (sample t) cs))))" for t
  proof -
    let ?r = "ring_record ?cap (map (sample t) cs)"
    have h0: "holds_window g0 g0 t ring_new"
      using init(1,2) by (simp add: holds_window_def ring_new_def)
    from run_holds_window [OF c100 sz inv0 h0, of cs] g(1) have
      inv: "ring_inv ?cap ?r" and h: "holds_window g0 g t ?r"
      by (simp_all add: ring_record_def)
    have cur: "currentPingNum g = int (write_cursor ?r)" and fr: "firstRun g = (\<not> has_wrapped ?r)"
      and inw: "\<forall>p<length (window ?r). getBool (pings t g) (int p) = Inr (window ?r ! p)"
      and outw: "\<forall>p. int (length (window ?r)) \<le> p \<and> p < 8 * int (length (pings t g0))
                 \<longrightarrow> getBool (pings t g) p = getBool (pings t g0) p"
      using h by (simp_all add: holds_window_def)
    have lenw: "length (window ?r) = (if has_wrapped ?r then ?cap else write_cursor ?r)"
      using inv by (simp add: ring_inv_def)
    have w: "logical_window_size cfg g = int (length (window ?r))"
      using cur fr lenw cap0 by (simp add: logical_window_size_def)
    have pos: "0 < length (window ?r)" using g(2) w by simp
    have wcap: "int (length (window ?r)) \<le> ?capi"
      using lenw inv by (auto simp: ring_inv_def split: if_splits)
    have "count_true (window ?r) \<le> int (length (window ?r))" by (rule count_true_le)
    then have cnt: "count_true (window ?r) * 100 \<le> INT_MAX" using wcap c100 by linarith
    have lmax: "int (length (window ?r)) \<le> INT_MAX" using wcap c100 cap0 by linarith
    have "getAvgBool_range (pings t g) 0 (int (length (window ?r))) =
            Inr ((count_true (window ?r) * 100) div int (length (window ?r)))"
      using inw by (rule getAvgBool_range_count) (use pos lmax cnt in auto)
    then have l: "loss t g = (count_true (window ?r) * 100) div int (length (window ?r))"
      using g(3) w by (metis sum.inject(2))
    have a: "getAvgBool cfg g (pings t g) = Inr (loss t g)"
      using g(3) by (simp add: getAvgBool_window)
    show ?thesis using w pos inw outw a l by blast
  qed
  show ?thesis using g(1) tgt by blast
qed

text \<open>
  C1. Warm-up averaging policy. First revision: start \<open>loop()\<close> with the cursor at 0,
  \<open>firstRun\<close> true and arrays of \<open>PING_BYTE_MAX\<close> bytes of any contents. After any positive
  number of calls no call has faulted and, for every target, the window
  \<open>[0, logical_window_size)\<close> that \<open>getAvgBool\<close> averages is the logical window of the
  specification's buffer for the samples recorded so far: it is not empty, each of its bits
  holds the recorded sample of its position, every bit of the array beyond it is still as it
  was before the first call (it was never written), and the cached loss is the integer
  percentage of the recorded samples of the window, so it does not depend on what the arrays
  held at the start. Evolved revision: in the calls made to the library by any number of
  calls of \<open>loop()\<close> from the initial cursor, every request for an average is over a range
  \<open>[0, e)\<close> that is not empty and is exactly the set of positions at which the buffer of that
  target has been written by the calls made before it; each call of \<open>loop()\<close> makes six
  library calls and ends with such a request for each of the three targets, over
  \<open>[0, logical_window_size)\<close>, which is then the set of all positions written so far.
\<close>

theorem average_over_written_window:
  assumes "usable cfg" and "cs \<noteq> []"
    and "currentPingNum g0 = 0" and "firstRun g0"
    and "\<forall>t. int (length (pings t g0)) = PING_BYTE_MAX cfg"
    and "0 < PING_MAX_COUNT cfg'" and "PING_MAX_COUNT cfg' \<le> INT_MAX"
  shows "(\<exists>g. run cfg g0 cs = Inr g \<and>
           (\<forall>t. logical_window_size cfg g =
                  int (length (window (ring_record (nat (PING_MAX_COUNT cfg)) (map (sample t) cs)))) \<and>
                0 < length (window (ring_record (nat (PING_MAX_COUNT cfg)) (map (sample t) cs))) \<and>
                (\<forall>p<length (window (ring_record (nat (PING_MAX_COUNT cfg)) (map (sample t) cs))).
                   getBool (pings t g) (int p) =
                     Inr (window (ring_record (nat (PING_MAX_COUNT cfg)) (map (sample t) cs)) ! p)) \<and>
                (\<forall>p. int (length (window (ring_record (nat (PING_MAX_COUNT cfg)) (map (sample t) cs)))) \<le> p \<and>
                     p < 8 * int (length (pings t g0))
                     \<longrightarrow> getBool (pings t g) p = getBool (pings t g0) p) \<and>
                getAvgBool cfg g (pings t g) = Inr (loss t g) \<and>
                loss t g =
                  (count_true (window (ring_record (nat (PING_MAX_COUNT cfg)) (map (sample t) cs))) * 100)
                    div int (length (window (ring_record (nat (PING_MAX_COUNT cfg)) (map (sample t) cs)))))) \<and>
         (\<exists>calls g. run_evolved cfg' \<lparr>currentPingNum = 0, firstRun = True\<rparr> ps = Inr (calls, g) \<and>
            length calls = 6 * length ps \<and>
            (\<forall>t. set_positions t calls = {0..<logical_window_size cfg' g}) \<and>
            (\<forall>i<length calls. \<forall>t s e. calls ! i = GetFloatAvgBool t s e \<longrightarrow>
                 s = 0 \<and> 0 < e \<and> {0..<e} = set_positions t (take i calls)) \<and>
            (ps \<noteq> [] \<longrightarrow>
               drop (length calls - 3) calls =
                 [GetFloatAvgBool Gateway 0 (logical_window_size cfg' g),
                  GetFloatAvgBool FirstAddr 0 (logical_window_size cfg' g),
                  GetFloatAvgBool SecondAddr 0 (logical_window_size cfg' g)]))"
proof -
  let ?g = "\<lparr>currentPingNum = 0, firstRun = True\<rparr>"
  have c: "0 \<le> currentPingNum ?g" "currentPingNum ?g < PING_MAX_COUNT cfg'"
    using assms(6) by simp_all
  have h: "\<forall>t. set_positions t [] = {0..<logical_window_size cfg' ?g}"
    by (simp add: logical_window_size_def)
  from run_evolved_calls [OF assms(7) c h, of ps]
  have evolved: "\<exists>calls g. run_evolved cfg' ?g ps = Inr (calls, g) \<and>
            length calls = 6 * length ps \<and>
            (\<forall>t. set_positions t calls = {0..<logical_window_size cfg' g}) \<and>
            (\<forall>i<length calls. \<forall>t s e. calls ! i = GetFloatAvgBool t s e \<longrightarrow>
                 s = 0 \<and> 0 < e \<and> {0..<e} = set_positions t (take i calls)) \<and>
            (ps \<noteq> [] \<longrightarrow>
               drop (length calls - 3) calls =
                 [GetFloatAvgBool Gateway 0 (logical_window_size cfg' g),
                  GetFloatAvgBool FirstAddr 0 (logical_window_size cfg' g),
                  GetFloatAvgBool SecondAddr 0 (logical_window_size cfg' g)])"
    by simp
  from run_refines_ring [OF assms(1-5)] evolved show ?thesis by (rule conjI)
qed

theorem average_over_written_window_witness:
  "usable first_revision \<and>
   [(SUCCESS, OTHER 2, SUCCESS), (OTHER 2, OTHER 1, SUCCESS)] \<noteq> [] \<and>
   currentPingNum (setup_globals first_revision) = 0 \<and>
   firstRun (setup_globals first_revision) \<and>
   (\<forall>t. int (length (pings t (setup_globals first_revision))) = PING_BYTE_MAX first_revision) \<and>
   0 < PING_MAX_COUNT evolved_revision \<and> PING_MAX_COUNT evolved_revision \<le> INT_MAX \<and>
   (\<exists>g. run first_revision (setup_globals first_revision)
           [(SUCCESS, OTHER 2, SUCCESS), (OTHER 2, OTHER 1, SUCCESS)] = Inr g \<and>
      logical_window_size first_revision g = 2 \<and>
      getBool (gatewayPings g) 0 = Inr False \<and>
      getBool (gatewayPings g) 1 = Inr True \<and>
      getBool (gatewayPings g) 2 = getBool (gatewayPings (setup_globals first_revision)) 2 \<and>
      getAvgBool first_revision g (gatewayPings g) = Inr (gatewayAvgLoss g) \<and>
      gatewayAvgLoss g = 50) \<and>
   (\<exists>calls g. run_evolved evolved_revision \<lparr>currentPingNum = 0, firstRun = True\<rparr>
                 [(Blocking SUCCESS, AsyncNotSent (OTHER 1), AsyncSent 2 SUCCESS)] = Inr (calls, g) \<and>
      length calls = 6 \<and>
      drop 3 calls =
        [GetFloatAvgBool Gateway 0 (logical_window_size evolved_revision g),
         GetFloatAvgBool FirstAddr 0 (logical_window_size evolved_revision g),
         GetFloatAvgBool SecondAddr 0 (logical_window_size evolved_revision g)])"
proof -
  let ?cs = "[(SUCCESS, OTHER 2, SUCCESS), (OTHER 2, OTHER 1, SUCCESS)]"
  let ?ps = "[(Blocking SUCCESS, AsyncNotSent (OTHER 1), AsyncSent 2 SUCCESS)]"
  let ?g0 = "setup_globals first_revision"
  have c: "?cs \<noteq> []" by simp
  have i: "currentPingNum ?g0 = 0" "firstRun ?g0" by (simp_all add: setup_globals_def)
  have l: "\<forall>t. int (length (pings t ?g0)) = PING_BYTE_MAX first_revision"
    by (simp add: all_target setup_globals_def PING_BYTE_MAX_first)
  have e: "0 < PING_MAX_COUNT evolved_revision" "PING_MAX_COUNT evolved_revision \<le> INT_MAX"
    by (simp_all add: evolved_revision_def INT_MAX_def)
  note t = average_over_written_window [OF usable_first c i l e, of ?ps]
  have w: "window (ring_record (nat (PING_MAX_COUNT first_revision)) (map (sample Gateway) ?cs)) =
             [False, True]"
    by (simp add: ring_record_def ring_set_def ring_new_def first_revision_def sample_def
          doPing_def Let_def)
  have len: "int (length (pings Gateway ?g0)) = 13"
    by (simp add: setup_globals_def PING_BYTE_MAX_first)
  from t obtain g where
    g: "run first_revision ?g0 ?cs = Inr g"
       "\<forall>t. logical_window_size first_revision g =
                  int (length (window (ring_record (nat (PING_MAX_COUNT first_revision)) (map (sample t) ?cs)))) \<and>
                (\<forall>p<length (window (ring_record (nat (PING_MAX_COUNT first_revision)) (map (sample t) ?cs))).
                   getBool (pings t g) (int p) =
                     Inr (window (ring_record (nat (PING_MAX_COUNT first_revision)) (map (sample t) ?cs)) ! p)) \<and>
                (\<forall>p. int (length (window (ring_record (nat (PING_MAX_COUNT first_revision)) (map (sample t) ?cs)))) \<le> p \<and>
                     p < 8 * int (length (pings t ?g0))
                     \<longrightarrow> getBool (pings t g) p = getBool (pings t ?g0) p) \<and>
                getAvgBool first_revision g (pings t g) = Inr (loss t g) \<and>
                loss t g =
                  (count_true (window (ring_record (nat (PING_MAX_COUNT first_revision)) (map (sample t) ?cs))) * 100)
                    div int (length (window (ring_record (nat (PING_MAX_COUNT first_revision)) (map (sample t) ?cs))))"
    by blast
  note gw = g(2) [rule_format, of Gateway, unfolded w]
  have a: "logical_window_size first_revision g = 2" using gw by simp
  have b0: "getBool (gatewayPings g) 0 = Inr False"
    using gw [THEN conjunct2, THEN conjunct1, rule_format, of 0] by simp
  have b1: "getBool (gatewayPings g) 1 = Inr True"
    using gw [THEN conjunct2, THEN conjunct1, rule_format, of 1] by simp
  have b2: "getBool (gatewayPings g) 2 = getBool (gatewayPings ?g0) 2"
    using gw [THEN conjunct2, THEN conjunct2, THEN conjunct1, rule_format, of 2] len by simp
  have av: "getAvgBool first_revision g (gatewayPings g) = Inr (gatewayAvgLoss g)"
    using gw by simp
  have lo: "gatewayAvgLoss g = 50" using gw by (simp add: count_true_def)
  have first: "\<exists>g. run first_revision ?g0 ?cs = Inr g \<and>
      logical_window_size first_revision g = 2 \<and>
      getBool (gatewayPings g) 0 = Inr False \<and>
      getBool (gatewayPings g) 1 = Inr True \<and>
      getBool (gatewayPings g) 2 = getBool (gatewayPings ?g0) 2 \<and>
      getAvgBool first_revision g (gatewayPings g) = Inr (gatewayAvgLoss g) \<and>
      gatewayAvgLoss g = 50"
    using g(1) a b0 b1 b2 av lo by blast
  from t have evolved: "\<exists>calls g. run_evolved evolved_revision \<lparr>currentPingNum = 0, firstRun = True\<rparr> ?ps =
        Inr (calls, g) \<and>
      length calls = 6 \<and>
      drop 3 calls =
        [GetFloatAvgBool Gateway 0 (logical_window_size evolved_revision g),
         GetFloatAvgBool FirstAddr 0 (logical_window_size evolved_revision g),
         GetFloatAvgBool SecondAddr 0 (logical_window_size evolved_revision g)]"
    by (elim conjE exE) (rule exI, rule exI, simp)
  show ?thesis using usable_first c i l e first evolved by blast
qed

end
